theory Spec2Isabelle
  imports Main
begin

section \<open>The insertion-ordered Map of JavaScript\<close>

text \<open>
  The cache of \<^verbatim>\<open>cache.ts\<close> keeps its entries in a JavaScript \<^verbatim>\<open>Map\<close>, whose iteration
  order is the order in which the keys were inserted. It is modelled as an association
  list, oldest key first. \<^verbatim>\<open>Map.set\<close> on a key that is present replaces the value and
  leaves the key at its position; on an absent key it appends. \<^verbatim>\<open>Map.delete\<close> removes the
  key and reports whether it was there. \<^verbatim>\<open>Map.get\<close> is \<open>map_of\<close>. Times and durations are
  integers (milliseconds, as \<^verbatim>\<open>Date.now()\<close> returns them).
\<close>

fun map_set :: "'k \<Rightarrow> 'e \<Rightarrow> ('k \<times> 'e) list \<Rightarrow> ('k \<times> 'e) list" where
  "map_set k e [] = [(k, e)]"
| "map_set k e (p # m) = (if fst p = k then (k, e) # m else p # map_set k e m)"

definition map_delete :: "'k \<Rightarrow> ('k \<times> 'e) list \<Rightarrow> ('k \<times> 'e) list" where
  "map_delete k m = filter (\<lambda>p. fst p \<noteq> k) m"

definition map_has :: "'k \<Rightarrow> ('k \<times> 'e) list \<Rightarrow> bool" where
  "map_has k m = (k \<in> set (map fst m))"

section \<open>Cache (cache.ts)\<close>

record 'v CacheEntry =
  entryValue :: 'v
  expiresAt :: int

record ('k, 'v) Cache =
  cache :: "('k \<times> 'v CacheEntry) list"
  ttl :: int
  maxSize :: int

text \<open>The constructor: both options may be missing (\<^verbatim>\<open>??\<close> supplies the default).\<close>

definition new_Cache :: "int option \<Rightarrow> int option \<Rightarrow> ('k, 'v) Cache" where
  "new_Cache ttl_opt maxSize_opt =
     \<lparr>cache = [],
      ttl = (case ttl_opt of None \<Rightarrow> 60 * 60 * 1000 | Some t \<Rightarrow> t),
      maxSize = (case maxSize_opt of None \<Rightarrow> 1000 | Some n \<Rightarrow> n)\<rparr>"

text \<open>
  \<^verbatim>\<open>get(key)\<close>, with \<open>now\<close> the value of \<^verbatim>\<open>Date.now()\<close>. A value of the type parameter
  \<^verbatim>\<open>T\<close> may itself be \<^verbatim>\<open>undefined\<close>: the values that \<^verbatim>\<open>get\<close> reads are of type
  \<open>'v option\<close>, with \<open>None\<close> for \<^verbatim>\<open>undefined\<close>, and \<^verbatim>\<open>get\<close> returns \<^verbatim>\<open>entry.value\<close> as it is
  stored. A live entry is deleted and set again, which moves it to the end.
\<close>

definition Cache_get ::
  "int \<Rightarrow> 'k \<Rightarrow> ('k, 'v option) Cache \<Rightarrow> 'v option \<times> ('k, 'v option) Cache" where
  "Cache_get now key c =
     (case map_of (cache c) key of
        None \<Rightarrow> (None, c)
      | Some entry \<Rightarrow>
          if now > expiresAt entry
          then (None, c\<lparr>cache := map_delete key (cache c)\<rparr>)
          else (entryValue entry,
                c\<lparr>cache := map_set key entry (map_delete key (cache c))\<rparr>))"

text \<open>
  The eviction loop of \<^verbatim>\<open>set\<close>:
  \<^verbatim>\<open>while (this.cache.size >= this.maxSize) { firstKey = keys().next().value;
  if (firstKey !== undefined) this.cache.delete(firstKey) }\<close>.
  On an empty map \<^verbatim>\<open>firstKey\<close> is undefined, nothing is deleted and the loop tests the same
  condition again. The loop may therefore not return; not returning is the value \<open>None\<close>.
\<close>

partial_function (option) evict_while ::
  "int \<Rightarrow> ('k \<times> 'e) list \<Rightarrow> ('k \<times> 'e) list option" where
  "evict_while maxS m =
     (if int (length m) \<ge> maxS
      then (case m of
              [] \<Rightarrow> evict_while maxS m
            | p # _ \<Rightarrow> evict_while maxS (map_delete (fst p) m))
      else Some m)"

text \<open>\<^verbatim>\<open>set(key, value, ttl?)\<close>: evict, then \<^verbatim>\<open>Map.set\<close> with the new expiry.\<close>

definition Cache_set ::
  "int \<Rightarrow> 'k \<Rightarrow> 'v \<Rightarrow> int option \<Rightarrow> ('k, 'v) Cache \<Rightarrow> ('k, 'v) Cache option" where
  "Cache_set now key v ttl_opt c =
     (case evict_while (maxSize c) (cache c) of
        None \<Rightarrow> None
      | Some m \<Rightarrow>
          Some (c\<lparr>cache :=
                    map_set key
                      \<lparr>entryValue = v,
                       expiresAt = now + (case ttl_opt of None \<Rightarrow> ttl c | Some t \<Rightarrow> t)\<rparr> m\<rparr>))"

definition Cache_has ::
  "int \<Rightarrow> 'k \<Rightarrow> ('k, 'v option) Cache \<Rightarrow> bool \<times> ('k, 'v option) Cache" where
  "Cache_has now key c = (case Cache_get now key c of (r, c') \<Rightarrow> (r \<noteq> None, c'))"

definition Cache_delete :: "'k \<Rightarrow> ('k, 'v) Cache \<Rightarrow> bool \<times> ('k, 'v) Cache" where
  "Cache_delete key c = (map_has key (cache c), c\<lparr>cache := map_delete key (cache c)\<rparr>)"

definition Cache_clear :: "('k, 'v) Cache \<Rightarrow> ('k, 'v) Cache" where
  "Cache_clear c = c\<lparr>cache := []\<rparr>"

definition Cache_size :: "('k, 'v) Cache \<Rightarrow> int" where
  "Cache_size c = int (length (cache c))"

text \<open>
  \<^verbatim>\<open>prune()\<close> walks the entries in order and deletes each expired one; the pair carries
  the map and the counter \<^verbatim>\<open>pruned\<close>.
\<close>

fun prune_for ::
  "int \<Rightarrow> ('k \<times> 'v CacheEntry) list \<Rightarrow> ('k \<times> 'v CacheEntry) list \<times> nat \<Rightarrow>
   ('k \<times> 'v CacheEntry) list \<times> nat" where
  "prune_for now [] (m, pruned) = (m, pruned)"
| "prune_for now (p # rest) (m, pruned) =
     (if now > expiresAt (snd p)
      then prune_for now rest (map_delete (fst p) m, pruned + 1)
      else prune_for now rest (m, pruned))"

definition Cache_prune :: "int \<Rightarrow> ('k, 'v) Cache \<Rightarrow> nat \<times> ('k, 'v) Cache" where
  "Cache_prune now c =
     (case prune_for now (cache c) (cache c, 0) of (m, pruned) \<Rightarrow> (pruned, c\<lparr>cache := m\<rparr>))"

text \<open>
  A history of calls on one cache. Each call carries the clock reading it sees. A call of
  \<^verbatim>\<open>set\<close> that does not return ends the history with \<open>None\<close>.
\<close>

datatype ('k, 'v) cache_op =
    Get int 'k
  | Set int 'k 'v "int option"
  | Has int 'k
  | Delete 'k
  | Clear
  | Prune int

fun apply_op ::
  "('k, 'v option) cache_op \<Rightarrow> ('k, 'v option) Cache \<Rightarrow> ('k, 'v option) Cache option" where
  "apply_op (Get now k) c = Some (snd (Cache_get now k c))"
| "apply_op (Set now k v t) c = Cache_set now k v t c"
| "apply_op (Has now k) c = Some (snd (Cache_has now k c))"
| "apply_op (Delete k) c = Some (snd (Cache_delete k c))"
| "apply_op Clear c = Some (Cache_clear c)"
| "apply_op (Prune now) c = Some (snd (Cache_prune now c))"

fun run_ops ::
  "('k, 'v option) cache_op list \<Rightarrow> ('k, 'v option) Cache \<Rightarrow> ('k, 'v option) Cache option" where
  "run_ops [] c = Some c"
| "run_ops (x # xs) c = (case apply_op x c of None \<Rightarrow> None | Some c' \<Rightarrow> run_ops xs c')"

text \<open>
  The recency of the specification, to be compared with the order of the Map: \<^verbatim>\<open>get\<close>,
  \<^verbatim>\<open>has\<close> and \<^verbatim>\<open>set\<close> touch their key. \<open>spec_touch_order\<close> lists the keys of a history by
  their last touch, the most recent one last; \<open>spec_least_recently_touched\<close> is the first
  of them that the cache still holds.
\<close>

fun touched_key :: "('k, 'v) cache_op \<Rightarrow> 'k option" where
  "touched_key (Get now k) = Some k"
| "touched_key (Set now k v t) = Some k"
| "touched_key (Has now k) = Some k"
| "touched_key (Delete k) = None"
| "touched_key Clear = None"
| "touched_key (Prune now) = None"

definition touch :: "('k, 'v) cache_op \<Rightarrow> 'k list \<Rightarrow> 'k list" where
  "touch x ks = (case touched_key x of None \<Rightarrow> ks | Some k \<Rightarrow> removeAll k ks @ [k])"

definition spec_touch_order :: "('k, 'v) cache_op list \<Rightarrow> 'k list" where
  "spec_touch_order ops = fold touch ops []"

definition spec_least_recently_touched ::
  "('k, 'v) cache_op list \<Rightarrow> ('k, 'v) Cache \<Rightarrow> 'k option" where
  "spec_least_recently_touched ops c = find (\<lambda>k. map_has k (cache c)) (spec_touch_order ops)"

text \<open>
  \<open>no_overwrite\<close>: in the history, run from the given cache, no \<^verbatim>\<open>set\<close> is called on a key
  that the cache holds at that moment. \<open>order_is_recency\<close>: the keys of the Map are distinct
  and stand in the order of the list \<open>ks\<close>.
\<close>

fun no_overwrite :: "('k, 'v option) cache_op list \<Rightarrow> ('k, 'v option) Cache \<Rightarrow> bool" where
  "no_overwrite [] c = True"
| "no_overwrite (x # xs) c =
     ((case x of Set now k v t \<Rightarrow> \<not> map_has k (cache c) | _ \<Rightarrow> True)
      \<and> (case apply_op x c of None \<Rightarrow> True | Some c' \<Rightarrow> no_overwrite xs c'))"

definition order_is_recency :: "('k, 'v) Cache \<Rightarrow> 'k list \<Rightarrow> bool" where
  "order_is_recency c ks =
     (distinct (map fst (cache c))
      \<and> map fst (cache c) = filter (\<lambda>k. map_has k (cache c)) ks)"

section \<open>RateLimiter (rateLimiter.ts)\<close>

text \<open>
  A queued request is the pair of callbacks of one pending promise; it is modelled by the
  name \<open>'p\<close> of that promise. Calling \<^verbatim>\<open>resolve()\<close> or \<^verbatim>\<open>reject(error)\<close> is an effect
  on the caller: the field \<open>settled\<close> records these calls in the order they are made, with
  the message of the \<^verbatim>\<open>RateLimitError\<close> for a rejection. \<open>refillTimer\<close> says whether the
  interval timer is set. All numbers are integers. With \<^verbatim>\<open>interval = 0\<close> the division
  of \<^verbatim>\<open>refill\<close> leaves the finite numbers (\<^verbatim>\<open>NaN\<close>, \<^verbatim>\<open>Infinity\<close>), which the integers do
  not have: the model stands for limiters with an interval other than 0, and every
  claim about \<^verbatim>\<open>refill\<close> or a function that calls it is stated for \<open>0 < interval\<close>.
\<close>

datatype settlement = Resolved | Rejected string

record 'p RateLimiter =
  maxRequests :: int
  interval :: int
  shouldQueue :: bool
  maxQueueSize :: int
  tokens :: int
  lastRefill :: int
  queue :: "'p list"
  refillTimer :: bool
  settled :: "('p \<times> settlement) list"

definition new_RateLimiter ::
  "int \<Rightarrow> int option \<Rightarrow> int option \<Rightarrow> bool option \<Rightarrow> int option \<Rightarrow> 'p RateLimiter" where
  "new_RateLimiter now maxRequests_opt interval_opt queue_opt maxQueueSize_opt =
     (let mr = (case maxRequests_opt of None \<Rightarrow> 50 | Some n \<Rightarrow> n) in
      \<lparr>maxRequests = mr,
       interval = (case interval_opt of None \<Rightarrow> 1000 | Some i \<Rightarrow> i),
       shouldQueue = (case queue_opt of None \<Rightarrow> True | Some b \<Rightarrow> b),
       maxQueueSize = (case maxQueueSize_opt of None \<Rightarrow> 100 | Some n \<Rightarrow> n),
       tokens = mr,
       lastRefill = now,
       queue = [],
       refillTimer = False,
       settled = []\<rparr>)"

definition startRefillTimer :: "'p RateLimiter \<Rightarrow> 'p RateLimiter" where
  "startRefillTimer s = (if refillTimer s then s else s\<lparr>refillTimer := True\<rparr>)"

definition stopRefillTimer :: "'p RateLimiter \<Rightarrow> 'p RateLimiter" where
  "stopRefillTimer s = (if refillTimer s then s\<lparr>refillTimer := False\<rparr> else s)"

text \<open>
  The loop of \<^verbatim>\<open>processQueue\<close>:
  \<^verbatim>\<open>while (queue.length > 0 && tokens > 0) { request = queue.shift(); tokens--;
  request.resolve() }\<close>.
\<close>

function processQueue_while :: "'p RateLimiter \<Rightarrow> 'p RateLimiter" where
  "processQueue_while s =
     (case queue s of
        [] \<Rightarrow> s
      | request # rest \<Rightarrow>
          if tokens s > 0
          then processQueue_while
                 (s\<lparr>queue := rest, tokens := tokens s - 1,
                    settled := settled s @ [(request, Resolved)]\<rparr>)
          else s)"
  by pat_completeness auto
termination
  by (relation "measure (\<lambda>s. length (queue s))") auto

definition processQueue :: "'p RateLimiter \<Rightarrow> 'p RateLimiter" where
  "processQueue s =
     (let s' = processQueue_while s
      in if length (queue s') = 0 then stopRefillTimer s' else s')"

text \<open>
  The remainder \<^verbatim>\<open>%\<close> of JavaScript takes the sign of the dividend;
  \<^verbatim>\<open>Math.floor(a / b)\<close> is \<open>a div b\<close> on integers with \<open>b \<noteq> 0\<close>.
\<close>

definition js_rem :: "int \<Rightarrow> int \<Rightarrow> int" where
  "js_rem a b = sgn a * (\<bar>a\<bar> mod \<bar>b\<bar>)"

definition refill :: "int \<Rightarrow> 'p RateLimiter \<Rightarrow> 'p RateLimiter" where
  "refill now s =
     (let elapsed = now - lastRefill s
      in if elapsed \<ge> interval s
         then (let intervals = elapsed div interval s
               in processQueue
                    (s\<lparr>tokens := min (maxRequests s) (tokens s + intervals * maxRequests s),
                       lastRefill := now - js_rem elapsed (interval s)\<rparr>))
         else s)"

text \<open>
  \<^verbatim>\<open>acquire()\<close> returns a promise: already fulfilled (\<open>Granted\<close>), already rejected with a
  \<^verbatim>\<open>RateLimitError\<close> (\<open>Failed\<close> with its message), or pending in the queue under the name
  \<open>p\<close> (\<open>Pending\<close>), to be settled by a later \<^verbatim>\<open>refill\<close> or \<^verbatim>\<open>reset\<close>.
\<close>

datatype admission = Granted | Failed string | Pending

definition acquire :: "int \<Rightarrow> 'p \<Rightarrow> 'p RateLimiter \<Rightarrow> admission \<times> 'p RateLimiter" where
  "acquire now p s =
     (let s1 = refill now s
      in if tokens s1 > 0 then (Granted, s1\<lparr>tokens := tokens s1 - 1\<rparr>)
         else if \<not> shouldQueue s1 then (Failed ''Rate limit exceeded'', s1)
         else if int (length (queue s1)) \<ge> maxQueueSize s1
              then (Failed ''Rate limit queue is full'', s1)
         else (Pending, (startRefillTimer s1)\<lparr>queue := queue s1 @ [p]\<rparr>))"

definition tryAcquire :: "int \<Rightarrow> 'p RateLimiter \<Rightarrow> bool \<times> 'p RateLimiter" where
  "tryAcquire now s =
     (let s1 = refill now s
      in if tokens s1 > 0 then (True, s1\<lparr>tokens := tokens s1 - 1\<rparr>) else (False, s1))"

definition getAvailableTokens :: "int \<Rightarrow> 'p RateLimiter \<Rightarrow> int \<times> 'p RateLimiter" where
  "getAvailableTokens now s = (let s1 = refill now s in (tokens s1, s1))"

definition getQueueSize :: "'p RateLimiter \<Rightarrow> int" where
  "getQueueSize s = int (length (queue s))"

text \<open>
  The loop of \<^verbatim>\<open>reset\<close>:
  \<^verbatim>\<open>while (queue.length > 0) { request = queue.shift();
  request?.reject(new RateLimitError("Rate limiter was reset")) }\<close>.
\<close>

function reset_while :: "'p RateLimiter \<Rightarrow> 'p RateLimiter" where
  "reset_while s =
     (case queue s of
        [] \<Rightarrow> s
      | request # rest \<Rightarrow>
          reset_while
            (s\<lparr>queue := rest,
               settled := settled s @ [(request, Rejected ''Rate limiter was reset'')]\<rparr>))"
  by pat_completeness auto
termination
  by (relation "measure (\<lambda>s. length (queue s))") auto

definition reset :: "int \<Rightarrow> 'p RateLimiter \<Rightarrow> 'p RateLimiter" where
  "reset now s =
     reset_while (stopRefillTimer (s\<lparr>tokens := maxRequests s, lastRefill := now\<rparr>))"

definition dispose :: "int \<Rightarrow> 'p RateLimiter \<Rightarrow> 'p RateLimiter" where
  "dispose now s = reset now s"

text \<open>
  A history of calls on one limiter, each with the clock reading it sees. \<open>Tick\<close> is the
  callback of the interval timer, which calls \<^verbatim>\<open>refill\<close>; a timer that is not set does
  not fire.
\<close>

datatype 'p limiter_op =
    Acquire int 'p
  | TryAcquire int
  | GetAvailableTokens int
  | Tick int
  | Reset int
  | Dispose int

fun apply_limiter_op :: "'p limiter_op \<Rightarrow> 'p RateLimiter \<Rightarrow> 'p RateLimiter" where
  "apply_limiter_op (Acquire now p) s = snd (acquire now p s)"
| "apply_limiter_op (TryAcquire now) s = snd (tryAcquire now s)"
| "apply_limiter_op (GetAvailableTokens now) s = snd (getAvailableTokens now s)"
| "apply_limiter_op (Tick now) s = (if refillTimer s then refill now s else s)"
| "apply_limiter_op (Reset now) s = reset now s"
| "apply_limiter_op (Dispose now) s = dispose now s"

definition run_limiter_ops :: "'p limiter_op list \<Rightarrow> 'p RateLimiter \<Rightarrow> 'p RateLimiter" where
  "run_limiter_ops ops s = fold apply_limiter_op ops s"

text \<open>
  \<^verbatim>\<open>await limiter.acquire()\<close>, seen from the caller. A promise that is settled at once
  decides the outcome. A pending promise \<open>p\<close> waits while the calls \<open>evs\<close> happen on the
  limiter; the outcome is the first settlement of \<open>p\<close> that these calls record: resolved
  (\<open>Admitted\<close>), rejected with the message of the error (\<open>Refused\<close>), or none yet
  (\<open>Parked\<close>). The names of promises are taken to be distinct.
\<close>

datatype awaited = Admitted | Refused string | Parked

definition awaitAcquire ::
  "int \<Rightarrow> 'p \<Rightarrow> 'p limiter_op list \<Rightarrow> 'p RateLimiter \<Rightarrow> awaited \<times> 'p RateLimiter" where
  "awaitAcquire now p evs s =
     (case acquire now p s of
        (Granted, s1) \<Rightarrow> (Admitted, s1)
      | (Failed msg, s1) \<Rightarrow> (Refused msg, s1)
      | (Pending, s1) \<Rightarrow>
          (let s2 = run_limiter_ops evs s1
           in case map_of (drop (length (settled s1)) (settled s2)) p of
                None \<Rightarrow> (Parked, s2)
              | Some Resolved \<Rightarrow> (Admitted, s2)
              | Some (Rejected msg) \<Rightarrow> (Refused msg, s2)))"

text \<open>
  What the limiter itself writes into \<open>settled\<close>: a request is resolved by
  \<^verbatim>\<open>processQueue\<close> or rejected by \<^verbatim>\<open>reset\<close>.
\<close>

definition settled_by_limiter :: "('p \<times> settlement) list \<Rightarrow> bool" where
  "settled_by_limiter new =
     list_all (\<lambda>e. snd e = Resolved \<or> snd e = Rejected ''Rate limiter was reset'') new"

text \<open>
  The limiter states that the operations can reach from a limiter constructed with a
  positive interval and \<open>maxRequests \<ge> 1\<close>: the tokens are not negative, and the queue is
  empty, or queuing is on and the queue is within its bound.
\<close>

definition limiter_ok :: "'p RateLimiter \<Rightarrow> bool" where
  "limiter_ok s =
     (0 < interval s \<and> 1 \<le> maxRequests s \<and> 0 \<le> tokens s
      \<and> (queue s = [] \<or> (shouldQueue s \<and> int (length (queue s)) \<le> maxQueueSize s)))"

text \<open>Both iterations are unfolded by hand, never by the simplifier.\<close>

declare processQueue_while.simps [simp del] reset_while.simps [simp del]

section \<open>Geocoder.requestWithCacheAndRateLimit (geocoder.ts)\<close>

text \<open>
  The cache of the geocoder holds result arrays, \<open>'v list\<close>, none of them undefined. The call
  \<^verbatim>\<open>this.request(parameters)\<close> is the producer: it is outside the model, so its outcome
  is an argument, an error or the result array, and the counter \<open>requests\<close> counts how
  often it is invoked. Either subsystem may be absent (\<^verbatim>\<open>null\<close>).
\<close>

datatype error = RateLimitError string | UpstreamError string

record ('k, 'v, 'p) Geocoder =
  gcache :: "('k, 'v list option) Cache option"
  rateLimiter :: "'p RateLimiter option"
  requests :: nat

datatype 'v outcome = Returned "'v list" | Threw error | Suspended

text \<open>
  The part of the method after \<^verbatim>\<open>await this.rateLimiter.acquire()\<close> has been fulfilled:
  the producer is invoked; its error is thrown on; a result that is not empty is stored
  under the key at clock reading \<open>now\<close>. \<open>None\<close>: the call of \<^verbatim>\<open>set\<close> does not return.
\<close>

definition afterAcquire ::
  "int \<Rightarrow> 'k \<Rightarrow> error + 'v list \<Rightarrow> ('k, 'v, 'p) Geocoder \<Rightarrow>
   ('v outcome \<times> ('k, 'v, 'p) Geocoder) option" where
  "afterAcquire now key produced g =
     (let g1 = g\<lparr>requests := requests g + 1\<rparr>
      in case produced of
           Inl e \<Rightarrow> Some (Threw e, g1)
         | Inr results \<Rightarrow>
             (case gcache g1 of
                None \<Rightarrow> Some (Returned results, g1)
              | Some c \<Rightarrow>
                  if length results > 0
                  then (case Cache_set now key (Some results) None c of
                          None \<Rightarrow> None
                        | Some c' \<Rightarrow> Some (Returned results, g1\<lparr>gcache := Some c'\<rparr>))
                  else Some (Returned results, g1)))"

text \<open>
  The whole method, for one caller at a time: \<open>now_get\<close>, \<open>now_acq\<close> and \<open>now_set\<close> are
  the clock readings of \<^verbatim>\<open>cache.get\<close>, of \<^verbatim>\<open>acquire\<close> and of \<^verbatim>\<open>cache.set\<close>; \<open>p\<close> names
  the promise of \<^verbatim>\<open>acquire\<close> and \<open>evs\<close> are the calls on the limiter while that promise is
  pending. A cached array is truthy even when empty, so every hit returns. A rejected
  \<^verbatim>\<open>acquire\<close> throws its error on; a promise that stays pending leaves the call
  \<open>Suspended\<close>.
\<close>

definition requestWithCacheAndRateLimit ::
  "int \<Rightarrow> int \<Rightarrow> int \<Rightarrow> 'p \<Rightarrow> 'p limiter_op list \<Rightarrow> 'k \<Rightarrow> error + 'v list \<Rightarrow>
   ('k, 'v, 'p) Geocoder \<Rightarrow> ('v outcome \<times> ('k, 'v, 'p) Geocoder) option" where
  "requestWithCacheAndRateLimit now_get now_acq now_set p evs key produced g =
     (case (case gcache g of
              None \<Rightarrow> (None, g)
            | Some c \<Rightarrow>
                (case Cache_get now_get key c of (r, c') \<Rightarrow> (r, g\<lparr>gcache := Some c'\<rparr>))) of
        (Some cached, g1) \<Rightarrow> Some (Returned cached, g1)
      | (None, g1) \<Rightarrow>
          (case rateLimiter g1 of
             None \<Rightarrow> afterAcquire now_set key produced g1
           | Some l \<Rightarrow>
               (case awaitAcquire now_acq p evs l of
                  (Admitted, l') \<Rightarrow>
                    afterAcquire now_set key produced (g1\<lparr>rateLimiter := Some l'\<rparr>)
                | (Refused msg, l') \<Rightarrow>
                    Some (Threw (RateLimitError msg), g1\<lparr>rateLimiter := Some l'\<rparr>)
                | (Parked, l') \<Rightarrow> Some (Suspended, g1\<lparr>rateLimiter := Some l'\<rparr>))))"

section \<open>Properties of the Map and of the eviction loop\<close>

lemma evict_while_returns_pos:
  assumes "evict_while maxS m = Some y"
  shows "0 < maxS"
  by (rule evict_while.raw_induct [where P = "\<lambda>maxS m y. 0 < maxS", OF _ assms])
     (auto split: if_splits list.splits)

lemma evict_while_diverges: "maxS \<le> 0 \<Longrightarrow> evict_while maxS m = None"
  using evict_while_returns_pos [of maxS m] by (cases "evict_while maxS m") auto

lemma length_map_delete_le: "length (map_delete k m) \<le> length m"
  by (simp add: map_delete_def)

lemma length_map_delete_less: "map_has k m \<Longrightarrow> length (map_delete k m) < length m"
proof -
  assume "map_has k m"
  then obtain p where "p \<in> set m" "fst p = k"
    by (auto simp: map_has_def)
  then show ?thesis
    using length_filter_less [of p m "\<lambda>p. fst p \<noteq> k"] by (simp add: map_delete_def)
qed

lemma evict_while_terminates:
  "1 \<le> maxS \<Longrightarrow>
   \<exists>m'. evict_while maxS m = Some m' \<and> int (length m') < maxS \<and> length m' \<le> length m"
proof (induction "length m" arbitrary: m rule: less_induct)
  case less
  show ?case
  proof (cases "int (length m) \<ge> maxS")
    case False
    then show ?thesis by (subst evict_while.simps) simp
  next
    case True
    with less.prems obtain p rest where m: "m = p # rest"
      by (cases m) auto
    have "map_has (fst p) m" by (simp add: m map_has_def)
    then have lt: "length (map_delete (fst p) m) < length m"
      by (rule length_map_delete_less)
    from less.hyps [OF lt less.prems] obtain m' where
      "evict_while maxS (map_delete (fst p) m) = Some m'" "int (length m') < maxS"
      "length m' \<le> length (map_delete (fst p) m)" by blast
    with lt True show ?thesis
      by (subst evict_while.simps) (simp add: m)
  qed
qed

lemma map_delete_hd: "distinct (map fst (p # rest)) \<Longrightarrow> map_delete (fst p) (p # rest) = rest"
  by (auto simp: map_delete_def filter_id_conv rev_image_eqI)

lemma evict_while_below: "int (length m) < maxS \<Longrightarrow> evict_while maxS m = Some m"
  by (subst evict_while.simps) simp

lemma evict_while_full:
  "distinct (map fst m) \<Longrightarrow> int (length m) = maxS \<Longrightarrow> 1 \<le> maxS \<Longrightarrow>
   evict_while maxS m = Some (tl m)"
proof -
  assume d: "distinct (map fst m)" and l: "int (length m) = maxS" and p: "1 \<le> maxS"
  then obtain q rest where m: "m = q # rest" by (cases m) auto
  have "evict_while maxS m = evict_while maxS rest"
    using d l by (subst evict_while.simps) (simp add: m map_delete_hd del: map_delete_def)
  also have "\<dots> = Some rest" using l by (intro evict_while_below) (simp add: m)
  finally show ?thesis by (simp add: m)
qed


lemma map_of_Some_map_has: "map_of m k = Some e \<Longrightarrow> map_has k m"
  by (auto simp: map_has_def dest: map_of_SomeD intro: rev_image_eqI)

lemma length_map_set_le: "length (map_set k e m) \<le> Suc (length m)"
  by (induction m) auto

lemma map_of_map_set: "map_of (map_set k e m) k = Some e"
  by (induction m) auto

lemma length_prune_for: "length (fst (prune_for now xs (m, n))) \<le> length m"
proof (induction xs arbitrary: m n)
  case Nil
  show ?case by simp
next
  case (Cons p rest)
  have "length (fst (prune_for now rest (map_delete (fst p) m, n + 1)))
          \<le> length (map_delete (fst p) m)"
    by (rule Cons.IH)
  also have "\<dots> \<le> length m" by (rule length_map_delete_le)
  finally show ?case using Cons.IH [of m n] by simp
qed

lemma Cache_get_size: "Cache_size (snd (Cache_get now k c)) \<le> Cache_size c"
proof (cases "map_of (cache c) k")
  case None
  then show ?thesis by (simp add: Cache_get_def)
next
  case (Some e)
  then have "length (map_delete k (cache c)) < length (cache c)"
    by (intro length_map_delete_less map_of_Some_map_has)
  moreover have "length (map_set k e (map_delete k (cache c)))
                   \<le> Suc (length (map_delete k (cache c)))"
    by (rule length_map_set_le)
  ultimately show ?thesis
    using Some by (simp add: Cache_get_def Cache_size_def)
qed

lemma Cache_get_maxSize: "maxSize (snd (Cache_get now k c)) = maxSize c"
  by (simp add: Cache_get_def split: option.splits)

lemma Cache_set_bound:
  assumes "1 \<le> maxSize c"
  shows "\<exists>c'. Cache_set now k v t c = Some c' \<and> maxSize c' = maxSize c
            \<and> Cache_size c' \<le> maxSize c'"
proof -
  from evict_while_terminates [OF assms, of "cache c"] obtain m where
    m: "evict_while (maxSize c) (cache c) = Some m" "int (length m) < maxSize c" by blast
  have "int (length (map_set k e m)) \<le> maxSize c" for e :: "'b CacheEntry"
    using length_map_set_le [of k e m] m(2) by linarith
  with m(1) show ?thesis
    by (simp add: Cache_set_def Cache_size_def)
qed

lemma snd_Cache_has: "snd (Cache_has now k c) = snd (Cache_get now k c)"
  by (simp add: Cache_has_def split: prod.splits)

lemma apply_op_bound:
  assumes "1 \<le> maxSize c" and "Cache_size c \<le> maxSize c"
  shows "\<exists>c'. apply_op x c = Some c' \<and> maxSize c' = maxSize c \<and> Cache_size c' \<le> maxSize c'"
proof (cases x)
  case (Get now k)
  then show ?thesis
    using Cache_get_size [of now k c] assms(2) by (simp add: Cache_get_maxSize)
next
  case (Set now k v t)
  then show ?thesis using Cache_set_bound [OF assms(1)] by simp
next
  case (Has now k)
  then show ?thesis
    using Cache_get_size [of now k c] assms(2)
    by (simp add: snd_Cache_has Cache_get_maxSize)
next
  case (Delete k)
  then show ?thesis
    using length_map_delete_le [of k "cache c"] assms(2)
    by (simp add: Cache_delete_def Cache_size_def)
next
  case Clear
  then show ?thesis using assms(1) by (simp add: Cache_clear_def Cache_size_def)
next
  case (Prune now)
  then show ?thesis
    using length_prune_for [of now "cache c" "cache c" 0] assms(2)
    by (auto simp: Cache_prune_def Cache_size_def split: prod.splits)
qed

lemma run_ops_bound:
  "1 \<le> maxSize c \<Longrightarrow> Cache_size c \<le> maxSize c \<Longrightarrow>
   \<exists>c'. run_ops ops c = Some c' \<and> maxSize c' = maxSize c \<and> Cache_size c' \<le> maxSize c'"
proof (induction ops arbitrary: c)
  case Nil
  then show ?case by simp
next
  case (Cons x xs)
  from apply_op_bound [OF Cons.prems, of x] obtain c1 where
    c1: "apply_op x c = Some c1" "maxSize c1 = maxSize c" "Cache_size c1 \<le> maxSize c1"
    by blast
  from Cons.IH [of c1] c1 Cons.prems(1) show ?case by simp
qed

lemma Cache_set_stores:
  assumes "1 \<le> maxSize c"
  shows "\<exists>c'. Cache_set now k v t c = Some c' \<and> maxSize c' = maxSize c \<and> ttl c' = ttl c
            \<and> map_of (cache c') k
                = Some \<lparr>entryValue = v,
                        expiresAt = now + (case t of None \<Rightarrow> ttl c | Some d \<Rightarrow> d)\<rparr>"
proof -
  from evict_while_terminates [OF assms, of "cache c"] obtain m where
    "evict_while (maxSize c) (cache c) = Some m" by blast
  then show ?thesis by (simp add: Cache_set_def map_of_map_set)
qed

lemma Cache_get_fields:
  "maxSize (snd (Cache_get now k c)) = maxSize c \<and> ttl (snd (Cache_get now k c)) = ttl c"
  by (simp add: Cache_get_def split: option.splits)

lemma Cache_get_hit:
  "map_of (cache c) k = Some e \<Longrightarrow> \<not> now > expiresAt e \<Longrightarrow>
   fst (Cache_get now k c) = entryValue e"
  by (simp add: Cache_get_def)

lemma Cache_get_miss: "map_of (cache c) k = None \<Longrightarrow> Cache_get now k c = (None, c)"
  by (simp add: Cache_get_def)

lemma map_set_absent: "\<not> map_has k m \<Longrightarrow> map_set k e m = m @ [(k, e)]"
  by (induction m) (auto simp: map_has_def)

lemma map_set_present:
  "map_has k m \<Longrightarrow> map fst (map_set k e m) = map fst m"
  by (induction m) (auto simp: map_has_def)

lemma Cache_set_full:
  assumes "distinct (map fst (cache c))" and "Cache_size c = maxSize c" and "1 \<le> maxSize c"
  shows "Cache_set now k v t c =
           Some (c\<lparr>cache := map_set k
                    \<lparr>entryValue = v,
                     expiresAt = now + (case t of None \<Rightarrow> ttl c | Some d \<Rightarrow> d)\<rparr>
                    (tl (cache c))\<rparr>)"
  using assms by (simp add: Cache_set_def Cache_size_def evict_while_full)

lemma Cache_set_full_new_key:
  assumes "distinct (map fst (cache c))" and "Cache_size c = maxSize c" and "1 \<le> maxSize c"
      and "\<not> map_has k (cache c)"
  shows "\<exists>c'. Cache_set now k v t c = Some c' \<and> map fst (cache c') = tl (map fst (cache c)) @ [k]"
proof -
  have "\<not> map_has k (tl (cache c))"
    using assms(4) by (cases "cache c") (auto simp: map_has_def)
  then show ?thesis
    using Cache_set_full [OF assms(1-3)] by (simp add: map_set_absent map_tl)
qed

lemma Cache_set_full_present_key:
  assumes "distinct (map fst (cache c))" and "Cache_size c = maxSize c" and "1 \<le> maxSize c"
      and "map_has k (cache c)" and "k \<noteq> fst (hd (cache c))"
  shows "\<exists>c'. Cache_set now k v t c = Some c' \<and> map fst (cache c') = tl (map fst (cache c))
            \<and> Cache_size c' = Cache_size c - 1"
proof -
  from assms(2,3) obtain p rest where m: "cache c = p # rest"
    by (cases "cache c") (auto simp: Cache_size_def)
  have "map_has k (tl (cache c))"
    using assms(4,5) by (auto simp: m map_has_def)
  then have "map fst (map_set k e (tl (cache c))) = tl (map fst (cache c))" for e
    by (simp add: map_set_present map_tl)
  moreover from this have "length (map_set k e (tl (cache c))) = length (cache c) - 1" for e
    by (metis length_map length_tl)
  ultimately show ?thesis
    using Cache_set_full [OF assms(1-3)] m by (simp add: Cache_size_def)
qed

lemma Cache_get_refreshes:
  assumes "distinct (map fst (cache c))" and "map_of (cache c) k = Some e"
      and "\<not> now > expiresAt e"
  shows "Cache_get now k c = (entryValue e, c\<lparr>cache := map_delete k (cache c) @ [(k, e)]\<rparr>)"
proof -
  have "\<not> map_has k (map_delete k (cache c))"
    by (auto simp: map_has_def map_delete_def)
  then show ?thesis using assms(2,3) by (simp add: Cache_get_def map_set_absent)
qed

lemma lru_example_get_refreshes:
  "run_ops [Set 0 ''A'' (Some (1::nat)) None, Set 1 ''B'' (Some 2) None, Set 2 ''C'' (Some 3) None, Get 3 ''A'']
     (new_Cache (Some 1000) (Some 3))
   = Some \<lparr>cache = [(''B'', \<lparr>entryValue = Some 2, expiresAt = 1001\<rparr>),
                     (''C'', \<lparr>entryValue = Some 3, expiresAt = 1002\<rparr>),
                     (''A'', \<lparr>entryValue = Some 1, expiresAt = 1000\<rparr>)],
           ttl = 1000, maxSize = 3\<rparr>
   \<and> spec_least_recently_touched
        [Set 0 ''A'' (Some (1::nat)) None, Set 1 ''B'' (Some 2) None, Set 2 ''C'' (Some 3) None, Get 3 ''A'']
        \<lparr>cache = [(''B'', \<lparr>entryValue = Some 2, expiresAt = 1001\<rparr>),
                     (''C'', \<lparr>entryValue = Some 3, expiresAt = 1002\<rparr>),
                     (''A'', \<lparr>entryValue = Some 1, expiresAt = 1000\<rparr>)],
           ttl = 1000, maxSize = 3\<rparr>
      = Some ''B''
   \<and> Cache_set 4 ''D'' (Some 4) None
        \<lparr>cache = [(''B'', \<lparr>entryValue = Some 2, expiresAt = 1001\<rparr>),
                     (''C'', \<lparr>entryValue = Some 3, expiresAt = 1002\<rparr>),
                     (''A'', \<lparr>entryValue = Some 1, expiresAt = 1000\<rparr>)],
           ttl = 1000, maxSize = 3\<rparr>
      = Some \<lparr>cache = [(''C'', \<lparr>entryValue = Some 3, expiresAt = 1002\<rparr>),
                     (''A'', \<lparr>entryValue = Some 1, expiresAt = 1000\<rparr>),
                     (''D'', \<lparr>entryValue = Some 4, expiresAt = 1004\<rparr>)],
           ttl = 1000, maxSize = 3\<rparr>"
  by (simp add: new_Cache_def Cache_set_def Cache_get_def evict_while.simps map_delete_def
        spec_least_recently_touched_def spec_touch_order_def touch_def map_has_def)

section \<open>The order of the Map and the recency of the specification\<close>

text \<open>
  As long as no \<^verbatim>\<open>set\<close> overwrites a key that is present, the keys of the Map stand in the
  order of their last touch, and a new key inserted into a full cache evicts exactly the
  key touched least recently.
\<close>

lemma evict_while_drop:
  "distinct (map fst m) \<Longrightarrow> 1 \<le> maxS \<Longrightarrow> \<exists>j. evict_while maxS m = Some (drop j m)"
proof (induction "length m" arbitrary: m rule: less_induct)
  case less
  show ?case
  proof (cases "int (length m) \<ge> maxS")
    case False
    then have "evict_while maxS m = Some (drop 0 m)" by (simp add: evict_while_below)
    then show ?thesis by blast
  next
    case True
    with less.prems obtain p rest where m: "m = p # rest" by (cases m) auto
    have del: "map_delete (fst p) m = rest"
      using less.prems(1) unfolding m by (rule map_delete_hd)
    have "distinct (map fst rest)" using less.prems(1) by (simp add: m)
    from less.hyps [of rest, OF _ this less.prems(2)] obtain j where
      "evict_while maxS rest = Some (drop j rest)" by (auto simp: m)
    then have "evict_while maxS m = Some (drop (Suc j) m)"
      using True del by (subst evict_while.simps) (simp add: m)
    then show ?thesis by blast
  qed
qed

lemma map_fst_map_delete: "map fst (map_delete k m) = removeAll k (map fst m)"
  by (induction m) (auto simp: map_delete_def)

lemma distinct_map_delete: "distinct (map fst m) \<Longrightarrow> distinct (map fst (map_delete k m))"
  by (simp add: map_fst_map_delete distinct_removeAll)

lemma map_has_set: "map_has k m \<longleftrightarrow> k \<in> set (map fst m)"
  by (simp add: map_has_def)

lemma filter_mem_drop:
  "distinct xs \<Longrightarrow> filter (\<lambda>x. x \<in> set (drop j xs)) xs = drop j xs"
proof (induction xs arbitrary: j)
  case Nil
  show ?case by simp
next
  case (Cons a xs)
  show ?case
  proof (cases j)
    case 0
    then show ?thesis by (simp add: filter_id_conv)
  next
    case (Suc n)
    have "a \<notin> set (drop n xs)" using Cons.prems by (auto dest: in_set_dropD)
    then show ?thesis using Suc Cons by simp
  qed
qed

lemma filter_mem_self: "filter (\<lambda>x. x \<in> set (filter P ks)) ks = filter P ks"
  by (rule filter_cong) auto

lemma touch_removed:
  "removeAll k (filter P ks) = filter (\<lambda>x. P x \<and> x \<noteq> k) (removeAll k ks @ [k])"
  by (induction ks) auto

lemma touch_moved:
  "removeAll k (filter P ks) @ [k] = filter (\<lambda>x. P x \<or> x = k) (removeAll k ks @ [k])"
  by (induction ks) auto

lemma touch_inserted:
  assumes "distinct (filter P ks)" and "k \<notin> set (filter P ks)"
  shows "drop j (filter P ks) @ [k]
           = filter (\<lambda>x. x \<in> set (drop j (filter P ks)) \<or> x = k) (removeAll k ks @ [k])"
proof -
  let ?D = "set (drop j (filter P ks))"
  have "drop j (filter P ks) = filter (\<lambda>x. x \<in> ?D) (filter P ks)"
    using filter_mem_drop [OF assms(1), of j] by simp
  also have "\<dots> = filter (\<lambda>x. x \<in> ?D) ks"
    unfolding filter_filter by (rule filter_cong) (auto dest: in_set_dropD)
  finally have d: "drop j (filter P ks) = filter (\<lambda>x. x \<in> ?D) ks" .
  have "k \<notin> ?D" using assms(2) by (auto dest: in_set_dropD)
  then have "removeAll k (filter (\<lambda>x. x \<in> ?D) ks) = filter (\<lambda>x. x \<in> ?D) ks"
    by (intro removeAll_id) auto
  with touch_moved [of k "\<lambda>x. x \<in> ?D" ks] d show ?thesis by simp
qed

lemma prune_for_eq:
  "prune_for now xs (m, n) =
     (filter (\<lambda>p. fst p \<notin> fst ` {q \<in> set xs. now > expiresAt (snd q)}) m,
      n + length (filter (\<lambda>q. now > expiresAt (snd q)) xs))"
proof (induction xs arbitrary: m n)
  case Nil
  show ?case by simp
next
  case (Cons p rest)
  show ?case
  proof (cases "now > expiresAt (snd p)")
    case True
    have "filter (\<lambda>q. fst q \<notin> fst ` {q \<in> set rest. now > expiresAt (snd q)})
            (map_delete (fst p) m)
          = filter (\<lambda>q. fst q \<notin> fst ` {q \<in> set (p # rest). now > expiresAt (snd q)}) m"
      using True by (auto simp: map_delete_def intro: filter_cong)
    with True Cons show ?thesis by simp
  next
    case False
    have "{q \<in> set (p # rest). now > expiresAt (snd q)} = {q \<in> set rest. now > expiresAt (snd q)}"
      using False by auto
    with False Cons show ?thesis by simp
  qed
qed

lemma order_is_recencyI:
  assumes "distinct (map fst (cache c))" and "map fst (cache c) = filter Q ks"
  shows "order_is_recency c ks"
proof -
  have "filter (\<lambda>k. map_has k (cache c)) ks
          = filter (\<lambda>x. x \<in> set (map fst (cache c))) ks"
    by (simp add: map_has_def)
  also have "\<dots> = filter (\<lambda>x. x \<in> set (filter Q ks)) ks"
    by (simp only: assms(2))
  also have "\<dots> = filter Q ks" by (rule filter_mem_self)
  also have "\<dots> = map fst (cache c)" by (simp only: assms(2))
  finally have "map fst (cache c) = filter (\<lambda>k. map_has k (cache c)) ks" by (rule sym)
  with assms(1) show ?thesis unfolding order_is_recency_def by (rule conjI)
qed

lemma order_is_recencyD:
  assumes "order_is_recency c ks"
  shows "distinct (map fst (cache c))"
    and "map fst (cache c) = filter (\<lambda>k. map_has k (cache c)) ks"
  using assms unfolding order_is_recency_def by blast+

lemma keys_after_get:
  assumes "distinct (map fst (cache c))"
  shows "map fst (cache (snd (Cache_get now k c))) = removeAll k (map fst (cache c))
         \<or> map fst (cache (snd (Cache_get now k c))) = removeAll k (map fst (cache c)) @ [k]"
proof (cases "map_of (cache c) k")
  case None
  then have "k \<notin> set (map fst (cache c))"
    by (simp add: map_of_eq_None_iff)
  then show ?thesis using None by (simp add: Cache_get_def)
next
  case (Some e)
  show ?thesis
  proof (cases "now > expiresAt e")
    case True
    with Some show ?thesis by (simp add: Cache_get_def map_fst_map_delete)
  next
    case False
    with Cache_get_refreshes [OF assms Some] show ?thesis
      by (simp add: map_fst_map_delete)
  qed
qed

lemma order_is_recency_get:
  assumes "order_is_recency c ks"
  shows "order_is_recency (snd (Cache_get now k c)) (removeAll k ks @ [k])"
proof -
  let ?K = "map fst (cache c)" and ?c' = "snd (Cache_get now k c)"
  let ?P = "\<lambda>k. map_has k (cache c)"
  from assms have d: "distinct ?K" and K: "?K = filter ?P ks"
    by (rule order_is_recencyD)+
  from keys_after_get [OF d, of now k] show ?thesis
  proof
    assume k': "map fst (cache ?c') = removeAll k ?K"
    then have "distinct (map fst (cache ?c'))" using d by (simp add: distinct_removeAll)
    moreover have "map fst (cache ?c') = filter (\<lambda>x. ?P x \<and> x \<noteq> k) (removeAll k ks @ [k])"
      unfolding k' by (subst K) (rule touch_removed)
    ultimately show ?thesis by (rule order_is_recencyI)
  next
    assume k': "map fst (cache ?c') = removeAll k ?K @ [k]"
    then have "distinct (map fst (cache ?c'))" using d by (simp add: distinct_removeAll)
    moreover have "map fst (cache ?c') = filter (\<lambda>x. ?P x \<or> x = k) (removeAll k ks @ [k])"
      unfolding k' by (subst K) (rule touch_moved)
    ultimately show ?thesis by (rule order_is_recencyI)
  qed
qed

lemma order_is_recency_set:
  assumes "order_is_recency c ks" and "\<not> map_has k (cache c)"
      and "Cache_set now k v t c = Some c'"
  shows "order_is_recency c' (removeAll k ks @ [k])"
proof -
  let ?K = "map fst (cache c)"
  let ?P = "\<lambda>k. map_has k (cache c)"
  from assms(1) have d: "distinct ?K" and K: "?K = filter ?P ks"
    by (rule order_is_recencyD)+
  from assms(3) obtain m where m: "evict_while (maxSize c) (cache c) = Some m"
    by (auto simp: Cache_set_def split: option.splits)
  then have "1 \<le> maxSize c" using evict_while_returns_pos [OF m] by simp
  from evict_while_drop [OF d this] m obtain j where j: "m = drop j (cache c)" by auto
  have "\<not> map_has k m"
    using assms(2) unfolding j by (auto simp: map_has_def dest: in_set_dropD)
  then have k': "map fst (cache c') = drop j ?K @ [k]"
    using assms(3) m by (auto simp: Cache_set_def map_set_absent j drop_map)
  have kn: "k \<notin> set ?K" using assms(2) by (simp add: map_has_def)
  have "distinct (map fst (cache c'))"
    unfolding k' using d kn by (auto dest: in_set_dropD)
  moreover have "map fst (cache c')
      = filter (\<lambda>x. x \<in> set (drop j (filter ?P ks)) \<or> x = k) (removeAll k ks @ [k])"
    using touch_inserted [of ?P ks k j] d kn unfolding k' by (subst (asm) (1 2) K, subst K) simp
  ultimately show ?thesis by (rule order_is_recencyI)
qed

lemma order_is_recency_filter:
  assumes "order_is_recency c ks" and "map fst (cache c') = filter R (map fst (cache c))"
  shows "order_is_recency c' ks"
proof -
  let ?P = "\<lambda>k. map_has k (cache c)"
  from assms(1) have d: "distinct (map fst (cache c))" and K: "map fst (cache c) = filter ?P ks"
    by (rule order_is_recencyD)+
  have "distinct (map fst (cache c'))" using d by (simp add: assms(2))
  moreover have "map fst (cache c') = filter (\<lambda>x. ?P x \<and> R x) ks"
    unfolding assms(2) by (subst K) (simp add: conj_commute)
  ultimately show ?thesis by (rule order_is_recencyI)
qed

lemma order_is_recency_step:
  assumes "order_is_recency c ks" and "apply_op x c = Some c'"
      and "case x of Set now k v t \<Rightarrow> \<not> map_has k (cache c) | _ \<Rightarrow> True"
  shows "order_is_recency c' (touch x ks)"
proof (cases x)
  case (Get now k)
  with assms(2) order_is_recency_get [OF assms(1), of now k] show ?thesis
    by (auto simp: touch_def)
next
  case (Set now k v t)
  with assms order_is_recency_set [of c ks k now v t c'] show ?thesis
    by (simp add: touch_def)
next
  case (Has now k)
  with assms(2) order_is_recency_get [OF assms(1), of now k] show ?thesis
    by (auto simp: touch_def snd_Cache_has)
next
  case (Delete k)
  have "map fst (cache (snd (Cache_delete k c))) = filter (\<lambda>x. k \<noteq> x) (map fst (cache c))"
    by (simp add: Cache_delete_def map_fst_map_delete removeAll_filter_not_eq)
  from order_is_recency_filter [OF assms(1) this] Delete assms(2) show ?thesis
    by (auto simp: touch_def)
next
  case Clear
  have "map fst (cache (Cache_clear c)) = filter (\<lambda>x. False) (map fst (cache c))"
    by (simp add: Cache_clear_def)
  from order_is_recency_filter [OF assms(1) this] Clear assms(2) show ?thesis
    by (auto simp: touch_def)
next
  case (Prune now)
  let ?E = "fst ` {q \<in> set (cache c). now > expiresAt (snd q)}"
  have "map fst (cache (snd (Cache_prune now c))) = filter (\<lambda>x. x \<notin> ?E) (map fst (cache c))"
    by (simp add: Cache_prune_def prune_for_eq filter_map comp_def)
  from order_is_recency_filter [OF assms(1) this] Prune assms(2) show ?thesis
    by (auto simp: touch_def)
qed

lemma order_is_recency_run:
  "order_is_recency c ks \<Longrightarrow> no_overwrite ops c \<Longrightarrow> run_ops ops c = Some c' \<Longrightarrow>
   order_is_recency c' (fold touch ops ks)"
proof (induction ops arbitrary: c ks)
  case Nil
  then show ?case by simp
next
  case (Cons x xs)
  from Cons.prems(3) obtain c1 where c1: "apply_op x c = Some c1" "run_ops xs c1 = Some c'"
    by (auto split: option.splits)
  from Cons.prems(2) c1(1) have nx: "case x of Set now k v t \<Rightarrow> \<not> map_has k (cache c) | _ \<Rightarrow> True"
    and nxs: "no_overwrite xs c1" by simp_all
  from order_is_recency_step [OF Cons.prems(1) c1(1) nx]
  have "order_is_recency c1 (touch x ks)" .
  from Cons.IH [OF this nxs c1(2)] show ?case by simp
qed

lemma find_filter_hd: "filter P ks = a # as \<Longrightarrow> find P ks = Some a"
  by (induction ks) (auto split: if_splits)

lemma lru_without_overwrite:
  assumes "no_overwrite ops (new_Cache topt nopt)"
      and "run_ops ops (new_Cache topt nopt) = Some c"
      and "Cache_size c = maxSize c" and "1 \<le> maxSize c" and "\<not> map_has k (cache c)"
  shows "\<exists>lru c'. spec_least_recently_touched ops c = Some lru
            \<and> Cache_set now k v t c = Some c'
            \<and> map fst (cache c') = removeAll lru (map fst (cache c)) @ [k]"
proof -
  have "order_is_recency (new_Cache topt nopt :: ('a, 'b option) Cache) []"
    by (simp add: order_is_recency_def new_Cache_def)
  from order_is_recency_run [OF this assms(1,2)]
  have inv: "order_is_recency c (spec_touch_order ops)"
    by (simp add: spec_touch_order_def)
  then have d: "distinct (map fst (cache c))"
    and K: "map fst (cache c) = filter (\<lambda>k. map_has k (cache c)) (spec_touch_order ops)"
    by (rule order_is_recencyD)+
  from assms(3,4) obtain p rest where m: "cache c = p # rest"
    by (cases "cache c") (auto simp: Cache_size_def)
  have "filter (\<lambda>k. map_has k (cache c)) (spec_touch_order ops) = fst p # map fst rest"
    using K [symmetric] by (simp only: m list.map)
  then have "find (\<lambda>k. map_has k (cache c)) (spec_touch_order ops) = Some (fst p)"
    by (rule find_filter_hd)
  then have lru: "spec_least_recently_touched ops c = Some (fst p)"
    by (simp add: spec_least_recently_touched_def)
  from Cache_set_full_new_key [OF d assms(3,4,5), of now v t] obtain c' where
    c': "Cache_set now k v t c = Some c'" "map fst (cache c') = tl (map fst (cache c)) @ [k]"
    by blast
  have "removeAll (fst p) (map fst (cache c)) = tl (map fst (cache c))"
    using d by (simp add: m)
  with lru c' show ?thesis by simp
qed

section \<open>Claims about the cache\<close>

text \<open>
  C2. The claim: on a full cache that holds \<open>k\<close>, \<^verbatim>\<open>set(k, v')\<close> replaces the value and the
  expiry of \<open>k\<close>, refreshes its recency, evicts no other entry and leaves the size as it
  is. The code runs the eviction loop before it looks at the key: with capacity 2 and the
  entries \<open>a\<close>, \<open>b\<close> (a full cache that holds \<open>b\<close>), \<^verbatim>\<open>set('b', 3)\<close> deletes \<open>a\<close> and the size
  drops from 2 to 1.
\<close>

theorem set_overwrite_at_capacity_evicts:
  "run_ops [Set 0 ''a'' (Some (1::nat)) None, Set 1 ''b'' (Some 2) None] (new_Cache (Some 1000) (Some 2))
     = Some \<lparr>cache = [(''a'', \<lparr>entryValue = Some 1, expiresAt = 1000\<rparr>),
                       (''b'', \<lparr>entryValue = Some 2, expiresAt = 1001\<rparr>)],
             ttl = 1000, maxSize = 2\<rparr>
   \<and> Cache_set 2 ''b'' (Some 3) None
        \<lparr>cache = [(''a'', \<lparr>entryValue = Some 1, expiresAt = 1000\<rparr>),
                  (''b'', \<lparr>entryValue = Some 2, expiresAt = 1001\<rparr>)],
         ttl = 1000, maxSize = 2\<rparr>
     = Some \<lparr>cache = [(''b'', \<lparr>entryValue = Some 3, expiresAt = 1002\<rparr>)],
             ttl = 1000, maxSize = 2\<rparr>"
  by (simp add: new_Cache_def Cache_set_def evict_while.simps map_delete_def)

text \<open>
  C3. The claim: with \<^verbatim>\<open>maxSize = 0\<close> every call of \<^verbatim>\<open>set\<close> terminates normally. The
  code: the loop condition \<^verbatim>\<open>size >= 0\<close> is true on the empty map and nothing is left to
  delete, so the call never returns.
\<close>

theorem set_maxSize_zero_never_returns:
  "Cache_set now key v t (new_Cache topt (Some 0)) = None"
  by (simp add: Cache_set_def new_Cache_def evict_while_diverges)

text \<open>
  C4. For a capacity \<open>n \<ge> 1\<close>, \<open>size \<le> maxSize\<close> holds for the new cache, and from every
  cache in which it holds, every history of \<^verbatim>\<open>get\<close>, \<^verbatim>\<open>set\<close>, \<^verbatim>\<open>has\<close>, \<^verbatim>\<open>delete\<close>,
  \<^verbatim>\<open>clear\<close> and \<^verbatim>\<open>prune\<close> calls runs to its end (every \<^verbatim>\<open>set\<close> returns) and ends in a
  cache in which it holds. The history is arbitrary, so the bound holds after each of its
  calls.
\<close>

theorem size_le_maxSize_invariant:
  fixes c :: "('k, 'v option) Cache"
  assumes "1 \<le> n"
  shows "Cache_size (new_Cache topt (Some n) :: ('k, 'v option) Cache) \<le> n
   \<and> (maxSize c = n \<and> Cache_size c \<le> n \<longrightarrow>
        (\<exists>c'. run_ops ops c = Some c' \<and> maxSize c' = n \<and> Cache_size c' \<le> n))"
proof (intro conjI impI)
  show "Cache_size (new_Cache topt (Some n) :: ('k, 'v option) Cache) \<le> n"
    using assms by (simp add: new_Cache_def Cache_size_def)
next
  assume "maxSize c = n \<and> Cache_size c \<le> n"
  then show "\<exists>c'. run_ops ops c = Some c' \<and> maxSize c' = n \<and> Cache_size c' \<le> n"
    using assms run_ops_bound [of c ops] by auto
qed

theorem size_le_maxSize_invariant_witness:
  "(1::int) \<le> 2
   \<and> Cache_size (new_Cache (Some 1000) (Some 2) :: (string, nat option) Cache) \<le> 2
   \<and> (\<exists>c'. run_ops [Set 0 ''a'' (Some 1) None, Set 1 ''b'' (Some 2) None, Get 2 ''a'', Set 3 ''c'' (Some 3) None,
                      Has 2000 ''b'', Delete ''c'', Prune 5000, Clear]
               (new_Cache (Some 1000) (Some 2) :: (string, nat option) Cache) = Some c'
          \<and> maxSize c' = 2 \<and> Cache_size c' \<le> 2)"
proof -
  have h: "(1::int) \<le> 2" by simp
  have i: "maxSize (new_Cache (Some 1000) (Some 2) :: (string, nat option) Cache) = 2
           \<and> Cache_size (new_Cache (Some 1000) (Some 2) :: (string, nat option) Cache) \<le> 2"
    by (simp add: new_Cache_def Cache_size_def)
  show ?thesis
    using h i size_le_maxSize_invariant [OF h, of "Some 1000"
      "new_Cache (Some 1000) (Some 2) :: (string, nat option) Cache"
      "[Set 0 ''a'' (Some 1) None, Set 1 ''b'' (Some 2) None, Get 2 ''a'', Set 3 ''c'' (Some 3) None,
        Has 2000 ''b'', Delete ''c'', Prune 5000, Clear]"]
    by blast
qed

text \<open>
  C5. The claim: a new key inserted into a full cache evicts exactly the key touched
  least recently. The code evicts the first key of the Map. \<^verbatim>\<open>get\<close> moves a key to the
  end, but \<^verbatim>\<open>set\<close> on a key that is present leaves it where it is. With capacity 3, after
  \<^verbatim>\<open>set A, set B, set A, set C\<close> the cache is full, the key touched least recently is \<open>B\<close>,
  and \<^verbatim>\<open>set D\<close> evicts \<open>A\<close> and keeps \<open>B\<close>.
\<close>

theorem overwrite_does_not_refresh_recency:
  "run_ops [Set 0 ''A'' (Some (1::nat)) None, Set 1 ''B'' (Some 2) None, Set 2 ''A'' (Some 3) None, Set 3 ''C'' (Some 4) None]
     (new_Cache (Some 1000) (Some 3))
   = Some \<lparr>cache = [(''A'', \<lparr>entryValue = Some 3, expiresAt = 1002\<rparr>),
                     (''B'', \<lparr>entryValue = Some 2, expiresAt = 1001\<rparr>),
                     (''C'', \<lparr>entryValue = Some 4, expiresAt = 1003\<rparr>)],
           ttl = 1000, maxSize = 3\<rparr>
   \<and> spec_least_recently_touched
        [Set 0 ''A'' (Some (1::nat)) None, Set 1 ''B'' (Some 2) None, Set 2 ''A'' (Some 3) None, Set 3 ''C'' (Some 4) None]
        \<lparr>cache = [(''A'', \<lparr>entryValue = Some 3, expiresAt = 1002\<rparr>),
                  (''B'', \<lparr>entryValue = Some 2, expiresAt = 1001\<rparr>),
                  (''C'', \<lparr>entryValue = Some 4, expiresAt = 1003\<rparr>)],
         ttl = 1000, maxSize = 3\<rparr>
      = Some ''B''
   \<and> Cache_set 4 ''D'' (Some 5) None
        \<lparr>cache = [(''A'', \<lparr>entryValue = Some 3, expiresAt = 1002\<rparr>),
                  (''B'', \<lparr>entryValue = Some 2, expiresAt = 1001\<rparr>),
                  (''C'', \<lparr>entryValue = Some 4, expiresAt = 1003\<rparr>)],
         ttl = 1000, maxSize = 3\<rparr>
      = Some \<lparr>cache = [(''B'', \<lparr>entryValue = Some 2, expiresAt = 1001\<rparr>),
                        (''C'', \<lparr>entryValue = Some 4, expiresAt = 1003\<rparr>),
                        (''D'', \<lparr>entryValue = Some 5, expiresAt = 1004\<rparr>)],
              ttl = 1000, maxSize = 3\<rparr>"
  by (simp add: new_Cache_def Cache_set_def evict_while.simps map_delete_def
        spec_least_recently_touched_def spec_touch_order_def touch_def map_has_def)

text \<open>
  C6. \<^verbatim>\<open>has(key)\<close> is true exactly when \<^verbatim>\<open>get(key)\<close> on the same cache at the same clock
  reading returns a value that is not \<^verbatim>\<open>undefined\<close>, and both leave the same cache behind.
  That is the case when the key is found, its entry is not expired and the stored value
  is not \<^verbatim>\<open>undefined\<close>; an expired entry is reported absent and deleted by both, and a live
  entry is moved to the end by both.
\<close>

theorem has_agrees_with_get:
  "fst (Cache_has now key c) = (fst (Cache_get now key c) \<noteq> None)
   \<and> snd (Cache_has now key c) = snd (Cache_get now key c)
   \<and> fst (Cache_has now key c) =
       (case map_of (cache c) key of
          None \<Rightarrow> False
        | Some entry \<Rightarrow> \<not> now > expiresAt entry \<and> entryValue entry \<noteq> None)
   \<and> cache (snd (Cache_has now key c)) =
       (case map_of (cache c) key of
          None \<Rightarrow> cache c
        | Some entry \<Rightarrow>
            if now > expiresAt entry then map_delete key (cache c)
            else map_set key entry (map_delete key (cache c)))"
  by (simp add: Cache_has_def Cache_get_def split: prod.splits option.splits)

theorem has_agrees_with_get_witness:
  "Cache_has 60 ''u''
      \<lparr>cache = [(''u'', \<lparr>entryValue = None, expiresAt = 100\<rparr>),
                   (''a'', \<lparr>entryValue = Some (1::nat), expiresAt = 100\<rparr>),
                   (''x'', \<lparr>entryValue = Some 2, expiresAt = 50\<rparr>)],
          ttl = 50, maxSize = 3\<rparr>
     = (False,
        \<lparr>cache = [(''a'', \<lparr>entryValue = Some (1::nat), expiresAt = 100\<rparr>),
                  (''x'', \<lparr>entryValue = Some 2, expiresAt = 50\<rparr>),
                  (''u'', \<lparr>entryValue = None, expiresAt = 100\<rparr>)],
         ttl = 50, maxSize = 3\<rparr>)
   \<and> fst (Cache_get 60 ''u''
      \<lparr>cache = [(''u'', \<lparr>entryValue = None, expiresAt = 100\<rparr>),
                   (''a'', \<lparr>entryValue = Some (1::nat), expiresAt = 100\<rparr>),
                   (''x'', \<lparr>entryValue = Some 2, expiresAt = 50\<rparr>)],
          ttl = 50, maxSize = 3\<rparr>) = None
   \<and> fst (Cache_has 60 ''a''
      \<lparr>cache = [(''u'', \<lparr>entryValue = None, expiresAt = 100\<rparr>),
                   (''a'', \<lparr>entryValue = Some (1::nat), expiresAt = 100\<rparr>),
                   (''x'', \<lparr>entryValue = Some 2, expiresAt = 50\<rparr>)],
          ttl = 50, maxSize = 3\<rparr>)
   \<and> fst (Cache_get 60 ''a''
      \<lparr>cache = [(''u'', \<lparr>entryValue = None, expiresAt = 100\<rparr>),
                   (''a'', \<lparr>entryValue = Some (1::nat), expiresAt = 100\<rparr>),
                   (''x'', \<lparr>entryValue = Some 2, expiresAt = 50\<rparr>)],
          ttl = 50, maxSize = 3\<rparr>) = Some 1
   \<and> Cache_has 60 ''x''
      \<lparr>cache = [(''u'', \<lparr>entryValue = None, expiresAt = 100\<rparr>),
                   (''a'', \<lparr>entryValue = Some (1::nat), expiresAt = 100\<rparr>),
                   (''x'', \<lparr>entryValue = Some 2, expiresAt = 50\<rparr>)],
          ttl = 50, maxSize = 3\<rparr>
     = (False,
        \<lparr>cache = [(''u'', \<lparr>entryValue = None, expiresAt = 100\<rparr>),
                  (''a'', \<lparr>entryValue = Some (1::nat), expiresAt = 100\<rparr>)],
         ttl = 50, maxSize = 3\<rparr>)"
  using
    has_agrees_with_get [of 60 "''u''" "\<lparr>cache = [(''u'', \<lparr>entryValue = None, expiresAt = 100\<rparr>),
                   (''a'', \<lparr>entryValue = Some (1::nat), expiresAt = 100\<rparr>),
                   (''x'', \<lparr>entryValue = Some 2, expiresAt = 50\<rparr>)],
          ttl = 50, maxSize = 3\<rparr>"]
    has_agrees_with_get [of 60 "''a''" "\<lparr>cache = [(''u'', \<lparr>entryValue = None, expiresAt = 100\<rparr>),
                   (''a'', \<lparr>entryValue = Some (1::nat), expiresAt = 100\<rparr>),
                   (''x'', \<lparr>entryValue = Some 2, expiresAt = 50\<rparr>)],
          ttl = 50, maxSize = 3\<rparr>"]
    has_agrees_with_get [of 60 "''x''" "\<lparr>cache = [(''u'', \<lparr>entryValue = None, expiresAt = 100\<rparr>),
                   (''a'', \<lparr>entryValue = Some (1::nat), expiresAt = 100\<rparr>),
                   (''x'', \<lparr>entryValue = Some 2, expiresAt = 50\<rparr>)],
          ttl = 50, maxSize = 3\<rparr>"]
  by (simp add: Cache_has_def Cache_get_def map_delete_def)

text \<open>
  C10. \<^verbatim>\<open>delete(key)\<close> checks no expiry: for an entry that is stored but expired it
  returns true, while \<^verbatim>\<open>get\<close> and \<^verbatim>\<open>has\<close> on the same cache report the key absent.
\<close>

theorem delete_ignores_expiry:
  "map_of (cache c) key = Some entry \<Longrightarrow> now > expiresAt entry \<Longrightarrow>
   fst (Cache_delete key c) \<and> fst (Cache_get now key c) = None \<and> \<not> fst (Cache_has now key c)"
  by (simp add: Cache_delete_def Cache_get_def Cache_has_def map_of_Some_map_has)

theorem delete_ignores_expiry_witness:
  "map_of (cache \<lparr>cache = [(''a'', \<lparr>entryValue = Some (1::nat), expiresAt = 50\<rparr>)], ttl = 50, maxSize = 3\<rparr>) ''a''
     = Some \<lparr>entryValue = Some 1, expiresAt = 50\<rparr>
   \<and> 60 > expiresAt \<lparr>entryValue = Some (1::nat), expiresAt = 50\<rparr>
   \<and> fst (Cache_delete ''a'' \<lparr>cache = [(''a'', \<lparr>entryValue = Some (1::nat), expiresAt = 50\<rparr>)], ttl = 50, maxSize = 3\<rparr>)
   \<and> fst (Cache_get 60 ''a'' \<lparr>cache = [(''a'', \<lparr>entryValue = Some (1::nat), expiresAt = 50\<rparr>)], ttl = 50, maxSize = 3\<rparr>) = None
   \<and> \<not> fst (Cache_has 60 ''a'' \<lparr>cache = [(''a'', \<lparr>entryValue = Some (1::nat), expiresAt = 50\<rparr>)], ttl = 50, maxSize = 3\<rparr>)"
  using delete_ignores_expiry
    [of "\<lparr>cache = [(''a'', \<lparr>entryValue = Some (1::nat), expiresAt = 50\<rparr>)], ttl = 50, maxSize = 3\<rparr>"
        "''a''" "\<lparr>entryValue = Some 1, expiresAt = 50\<rparr>" 60]
  by simp

section \<open>Properties of the rate limiter\<close>

lemma stopRefillTimer_eq: "stopRefillTimer s = s\<lparr>refillTimer := False\<rparr>"
  by (simp add: stopRefillTimer_def)

lemma processQueue_while_fields:
  "maxRequests (processQueue_while s) = maxRequests s
   \<and> interval (processQueue_while s) = interval s
   \<and> shouldQueue (processQueue_while s) = shouldQueue s
   \<and> maxQueueSize (processQueue_while s) = maxQueueSize s
   \<and> lastRefill (processQueue_while s) = lastRefill s
   \<and> refillTimer (processQueue_while s) = refillTimer s"
proof (induction s rule: processQueue_while.induct)
  case (1 s)
  show ?case
  proof (cases "queue s")
    case Nil
    then show ?thesis by (subst (1 2 3 4 5 6) processQueue_while.simps) simp
  next
    case (Cons request rest)
    show ?thesis
    proof (cases "tokens s > 0")
      case True
      with Cons "1.IH" [OF Cons True] show ?thesis
        by (subst (1 2 3 4 5 6) processQueue_while.simps) simp
    next
      case False
      with Cons show ?thesis by (subst (1 2 3 4 5 6) processQueue_while.simps) simp
    qed
  qed
qed

lemma processQueue_while_drain:
  "queue (processQueue_while s) = drop (min (length (queue s)) (nat (tokens s))) (queue s)
   \<and> tokens (processQueue_while s) = tokens s - int (min (length (queue s)) (nat (tokens s)))
   \<and> settled (processQueue_while s) =
       settled s @ map (\<lambda>r. (r, Resolved)) (take (min (length (queue s)) (nat (tokens s))) (queue s))"
proof (induction s rule: processQueue_while.induct)
  case (1 s)
  show ?case
  proof (cases "queue s")
    case Nil
    then show ?thesis by (subst (1 2 3) processQueue_while.simps) simp
  next
    case (Cons request rest)
    show ?thesis
    proof (cases "tokens s > 0")
      case True
      then obtain n where n: "nat (tokens s) = Suc n" "nat (tokens s - 1) = n"
        by (cases "nat (tokens s)") auto
      with Cons True "1.IH" [OF Cons True] show ?thesis
        by (subst (1 2 3) processQueue_while.simps) simp
    next
      case False
      with Cons show ?thesis by (subst (1 2 3) processQueue_while.simps) simp
    qed
  qed
qed

lemma reset_while_eq:
  "queue s = q \<Longrightarrow>
   reset_while s =
     s\<lparr>queue := [], settled := settled s @ map (\<lambda>r. (r, Rejected ''Rate limiter was reset'')) q\<rparr>"
proof (induction q arbitrary: s)
  case Nil
  then show ?case by (subst reset_while.simps) simp
next
  case (Cons request rest)
  have "reset_while s =
          reset_while (s\<lparr>queue := rest,
             settled := settled s @ [(request, Rejected ''Rate limiter was reset'')]\<rparr>)"
    using Cons.prems by (subst reset_while.simps) simp
  also have "\<dots> = s\<lparr>queue := [],
      settled := settled s @ map (\<lambda>r. (r, Rejected ''Rate limiter was reset'')) (request # rest)\<rparr>"
    by (subst Cons.IH) simp_all
  finally show ?case .
qed

lemma processQueue_fields:
  "maxRequests (processQueue s) = maxRequests s
   \<and> interval (processQueue s) = interval s
   \<and> shouldQueue (processQueue s) = shouldQueue s
   \<and> maxQueueSize (processQueue s) = maxQueueSize s
   \<and> lastRefill (processQueue s) = lastRefill s"
  using processQueue_while_fields [of s]
  by (simp add: processQueue_def Let_def stopRefillTimer_eq)

lemma processQueue_drain:
  "queue (processQueue s) = drop (min (length (queue s)) (nat (tokens s))) (queue s)
   \<and> tokens (processQueue s) = tokens s - int (min (length (queue s)) (nat (tokens s)))
   \<and> settled (processQueue s) =
       settled s @ map (\<lambda>r. (r, Resolved)) (take (min (length (queue s)) (nat (tokens s))) (queue s))"
  using processQueue_while_drain [of s]
  by (simp add: processQueue_def Let_def stopRefillTimer_eq)

lemma js_rem_nonneg: "0 \<le> a \<Longrightarrow> 0 < b \<Longrightarrow> js_rem a b = a mod b"
  by (cases "a = 0") (simp_all add: js_rem_def)

lemma refill_fires:
  assumes "0 < interval s" and "interval s \<le> now - lastRefill s"
  shows "refill now s =
     processQueue
       (s\<lparr>tokens := min (maxRequests s)
                      (tokens s + ((now - lastRefill s) div interval s) * maxRequests s),
          lastRefill := lastRefill s + ((now - lastRefill s) div interval s) * interval s\<rparr>)"
proof -
  have nn: "0 \<le> now - lastRefill s" using assms by linarith
  have "now - js_rem (now - lastRefill s) (interval s)
          = now - (now - lastRefill s) mod interval s"
    using nn assms(1) by (simp add: js_rem_nonneg)
  also have "\<dots> = lastRefill s + ((now - lastRefill s) div interval s) * interval s"
    using div_mult_mod_eq [of "now - lastRefill s" "interval s"] by linarith
  finally show ?thesis
    using assms(2) by (simp add: refill_def Let_def)
qed

lemma refill_idle: "now - lastRefill s < interval s \<Longrightarrow> refill now s = s"
  by (simp add: refill_def Let_def)

lemma refill_unchanged_or_full:
  assumes "0 < interval s" and "1 \<le> maxRequests s" and "0 \<le> tokens s"
  shows "refill now s = s
         \<or> (tokens (refill now s) = maxRequests s - int (min (length (queue s)) (nat (maxRequests s)))
            \<and> queue (refill now s) = drop (min (length (queue s)) (nat (maxRequests s))) (queue s))"
proof (cases "interval s \<le> now - lastRefill s")
  case False
  then show ?thesis by (simp add: refill_idle)
next
  case True
  let ?n = "(now - lastRefill s) div interval s"
  let ?t = "min (maxRequests s) (tokens s + ?n * maxRequests s)"
  let ?s1 = "s\<lparr>tokens := ?t, lastRefill := lastRefill s + ?n * interval s\<rparr>"
  have n1: "1 \<le> ?n"
    using assms(1) True by (simp add: pos_imp_zdiv_pos_iff Suc_le_eq int_one_le_iff_zero_less)
  have "maxRequests s * 1 \<le> maxRequests s * ?n"
    using n1 assms(2) by (intro mult_left_mono) simp_all
  then have t: "?t = maxRequests s"
    using assms(3) by (simp add: mult.commute)
  have "refill now s = processQueue ?s1"
    using assms(1) True by (rule refill_fires)
  then show ?thesis
    using processQueue_drain [of ?s1] t by simp
qed

lemma refill_fields:
  "maxRequests (refill now s) = maxRequests s \<and> interval (refill now s) = interval s
   \<and> shouldQueue (refill now s) = shouldQueue s \<and> maxQueueSize (refill now s) = maxQueueSize s"
  using processQueue_fields [of "s\<lparr>tokens := min (maxRequests s)
                      (tokens s + ((now - lastRefill s) div interval s) * maxRequests s),
          lastRefill := now - js_rem (now - lastRefill s) (interval s)\<rparr>"]
  by (simp add: refill_def Let_def)

lemma limiter_ok_refill:
  assumes "limiter_ok s"
  shows "limiter_ok (refill now s)"
proof -
  from assms have a: "0 < interval s" "1 \<le> maxRequests s" "0 \<le> tokens s"
    and q: "queue s = [] \<or> (shouldQueue s \<and> int (length (queue s)) \<le> maxQueueSize s)"
    by (simp_all add: limiter_ok_def)
  from refill_unchanged_or_full [OF a, of now] show ?thesis
  proof
    assume "refill now s = s"
    with assms show ?thesis by simp
  next
    assume r: "tokens (refill now s)
                 = maxRequests s - int (min (length (queue s)) (nat (maxRequests s)))
               \<and> queue (refill now s)
                 = drop (min (length (queue s)) (nat (maxRequests s))) (queue s)"
    then have "0 \<le> tokens (refill now s)" using a(2) by linarith
    moreover have "queue (refill now s) = []
        \<or> (shouldQueue s \<and> int (length (queue (refill now s))) \<le> maxQueueSize s)"
      using q r by auto
    ultimately show ?thesis
      using a refill_fields [of now s] by (simp add: limiter_ok_def)
  qed
qed

lemma limiter_ok_new:
  "0 < i \<Longrightarrow> 1 \<le> n \<Longrightarrow> limiter_ok (new_RateLimiter now (Some n) (Some i) qopt mopt)"
  by (simp add: limiter_ok_def new_RateLimiter_def)

lemma limiter_ok_acquire: "limiter_ok s \<Longrightarrow> limiter_ok (snd (acquire now p s))"
  using limiter_ok_refill [of s now]
  by (auto simp: acquire_def Let_def limiter_ok_def startRefillTimer_def)

lemma limiter_ok_tryAcquire: "limiter_ok s \<Longrightarrow> limiter_ok (snd (tryAcquire now s))"
  using limiter_ok_refill [of s now]
  by (auto simp: tryAcquire_def Let_def limiter_ok_def)

lemma limiter_ok_getAvailableTokens:
  "limiter_ok s \<Longrightarrow> limiter_ok (snd (getAvailableTokens now s))"
  using limiter_ok_refill [of s now] by (simp add: getAvailableTokens_def Let_def)

lemma reset_eq:
  "reset now s =
     s\<lparr>tokens := maxRequests s, lastRefill := now, queue := [], refillTimer := False,
       settled := settled s @ map (\<lambda>r. (r, Rejected ''Rate limiter was reset'')) (queue s)\<rparr>"
  unfolding reset_def stopRefillTimer_eq
  by (subst reset_while_eq [where q = "queue s"]) simp_all

lemma limiter_ok_reset: "limiter_ok s \<Longrightarrow> limiter_ok (reset now s)"
  by (simp add: reset_eq limiter_ok_def)

lemma limiter_ok_apply: "limiter_ok s \<Longrightarrow> limiter_ok (apply_limiter_op x s)"
  by (cases x)
     (simp_all add: limiter_ok_acquire limiter_ok_tryAcquire limiter_ok_getAvailableTokens
        limiter_ok_refill limiter_ok_reset dispose_def)

lemma limiter_ok_run: "limiter_ok s \<Longrightarrow> limiter_ok (run_limiter_ops ops s)"
  unfolding run_limiter_ops_def by (induction ops arbitrary: s) (simp_all add: limiter_ok_apply)

lemma refill_settled:
  "\<exists>new. settled (refill now s) = settled s @ new \<and> settled_by_limiter new"
proof (cases "now - lastRefill s \<ge> interval s")
  case False
  then show ?thesis by (simp add: refill_def Let_def settled_by_limiter_def)
next
  case True
  let ?s1 = "s\<lparr>tokens := min (maxRequests s)
                      (tokens s + ((now - lastRefill s) div interval s) * maxRequests s),
          lastRefill := now - js_rem (now - lastRefill s) (interval s)\<rparr>"
  have "refill now s = processQueue ?s1" using True by (simp add: refill_def Let_def)
  with processQueue_drain [of ?s1] show ?thesis
    by (auto simp: settled_by_limiter_def list_all_iff)
qed

lemma apply_limiter_op_settled:
  "\<exists>new. settled (apply_limiter_op x s) = settled s @ new \<and> settled_by_limiter new"
proof (cases x)
  case (Acquire now p)
  with refill_settled [of now s] show ?thesis
    by (auto simp: acquire_def Let_def startRefillTimer_def)
next
  case (TryAcquire now)
  with refill_settled [of now s] show ?thesis by (auto simp: tryAcquire_def Let_def)
next
  case (GetAvailableTokens now)
  with refill_settled [of now s] show ?thesis by (auto simp: getAvailableTokens_def Let_def)
next
  case (Tick now)
  with refill_settled [of now s] show ?thesis by (auto simp: settled_by_limiter_def)
next
  case (Reset now)
  then show ?thesis by (simp add: reset_eq settled_by_limiter_def list_all_iff)
next
  case (Dispose now)
  then show ?thesis by (simp add: dispose_def reset_eq settled_by_limiter_def list_all_iff)
qed

lemma run_limiter_ops_settled:
  "\<exists>new. settled (run_limiter_ops evs s) = settled s @ new \<and> settled_by_limiter new"
proof (induction evs arbitrary: s)
  case Nil
  show ?case by (simp add: run_limiter_ops_def settled_by_limiter_def)
next
  case (Cons x xs)
  from apply_limiter_op_settled [of x s] obtain n1 where
    n1: "settled (apply_limiter_op x s) = settled s @ n1" "settled_by_limiter n1" by blast
  from Cons.IH [of "apply_limiter_op x s"] obtain n2 where
    n2: "settled (run_limiter_ops xs (apply_limiter_op x s)) = settled (apply_limiter_op x s) @ n2"
        "settled_by_limiter n2" by blast
  have "settled (run_limiter_ops (x # xs) s) = settled s @ (n1 @ n2)"
    using n1(1) n2(1) by (simp add: run_limiter_ops_def)
  moreover have "settled_by_limiter (n1 @ n2)"
    using n1(2) n2(2) by (simp add: settled_by_limiter_def)
  ultimately show ?case by blast
qed

lemma map_of_const: "p \<in> set q \<Longrightarrow> map_of (map (\<lambda>r. (r, c)) q) p = Some c"
  by (induction q) auto

lemma awaitAcquire_refused:
  assumes "fst (awaitAcquire now p evs s) = Refused msg"
  shows "fst (acquire now p s) = Failed msg
         \<or> (fst (acquire now p s) = Pending \<and> msg = ''Rate limiter was reset'')"
proof (cases "acquire now p s")
  case (Pair a s1)
  show ?thesis
  proof (cases a)
    case Granted
    with Pair assms show ?thesis by (simp add: awaitAcquire_def)
  next
    case (Failed m)
    with Pair assms show ?thesis by (simp add: awaitAcquire_def)
  next
    case Pending
    from run_limiter_ops_settled [of evs s1] obtain new where
      new: "settled (run_limiter_ops evs s1) = settled s1 @ new" "settled_by_limiter new"
      by blast
    from Pair Pending assms have "map_of new p = Some (Rejected msg)"
      by (auto simp: awaitAcquire_def Let_def new(1) split: option.splits settlement.splits)
    then have "(p, Rejected msg) \<in> set new" by (rule map_of_SomeD)
    with new(2) have "msg = ''Rate limiter was reset''"
      by (auto simp: settled_by_limiter_def list_all_iff)
    with Pair Pending show ?thesis by simp
  qed
qed

lemma acquire_failure_immediate:
  "(fst (acquire now p s) = Failed msg \<longleftrightarrow>
      \<not> tokens (refill now s) > 0 \<and>
      (if \<not> shouldQueue s then msg = ''Rate limit exceeded''
       else int (length (queue (refill now s))) \<ge> maxQueueSize s
            \<and> msg = ''Rate limit queue is full''))
   \<and> (fst (acquire now p s) = Failed msg \<longrightarrow> snd (acquire now p s) = refill now s)
   \<and> (fst (acquire now p s) = Failed msg \<and> limiter_ok s \<longrightarrow> snd (acquire now p s) = s)"
proof (intro conjI impI)
  show "fst (acquire now p s) = Failed msg \<longleftrightarrow>
      \<not> tokens (refill now s) > 0 \<and>
      (if \<not> shouldQueue s then msg = ''Rate limit exceeded''
       else int (length (queue (refill now s))) \<ge> maxQueueSize s
            \<and> msg = ''Rate limit queue is full'')"
    using processQueue_fields [of "s\<lparr>tokens := min (maxRequests s)
                      (tokens s + ((now - lastRefill s) div interval s) * maxRequests s),
          lastRefill := now - js_rem (now - lastRefill s) (interval s)\<rparr>"]
    by (auto simp: acquire_def Let_def refill_def)
next
  assume "fst (acquire now p s) = Failed msg"
  then show "snd (acquire now p s) = refill now s"
    by (auto simp: acquire_def Let_def split: if_splits)
next
  assume "fst (acquire now p s) = Failed msg \<and> limiter_ok s"
  then have f: "fst (acquire now p s) = Failed msg"
    and a: "0 < interval s \<and> 1 \<le> maxRequests s \<and> 0 \<le> tokens s
        \<and> (queue s = [] \<or> (shouldQueue s \<and> int (length (queue s)) \<le> maxQueueSize s))"
    by (simp_all add: limiter_ok_def)
  then have st: "snd (acquire now p s) = refill now s"
    by (auto simp: acquire_def Let_def split: if_splits)
  have nt: "\<not> tokens (refill now s) > 0"
    using f by (auto simp: acquire_def Let_def split: if_splits)
  have full: "shouldQueue (refill now s) \<longrightarrow> int (length (queue (refill now s))) \<ge> maxQueueSize (refill now s)"
    using f by (auto simp: acquire_def Let_def split: if_splits)
  have sq: "shouldQueue (refill now s) = shouldQueue s \<and> maxQueueSize (refill now s) = maxQueueSize s"
    using processQueue_fields [of "s\<lparr>tokens := min (maxRequests s)
                      (tokens s + ((now - lastRefill s) div interval s) * maxRequests s),
          lastRefill := now - js_rem (now - lastRefill s) (interval s)\<rparr>"]
    by (simp add: refill_def Let_def)
  from a refill_unchanged_or_full [of s now] consider
      "refill now s = s"
    | "tokens (refill now s) = maxRequests s - int (min (length (queue s)) (nat (maxRequests s)))"
      "queue (refill now s) = drop (min (length (queue s)) (nat (maxRequests s))) (queue s)"
    by blast
  then have "refill now s = s"
  proof cases
    case 1
    then show ?thesis .
  next
    case 2
    from nt 2(1) a have big: "nat (maxRequests s) \<le> length (queue s)" by linarith
    with a have ne: "queue s \<noteq> []" by auto
    with a have sb: "shouldQueue s" and bound: "int (length (queue s)) \<le> maxQueueSize s"
      by simp_all
    from sb full sq have "int (length (queue (refill now s))) \<ge> maxQueueSize s" by simp
    moreover have "length (queue (refill now s)) < length (queue s)"
      using 2(2) big ne a by simp
    ultimately have False using bound by linarith
    then show ?thesis ..
  qed
  with st show "snd (acquire now p s) = s" by simp
qed

lemma awaitAcquire_reset:
  assumes pend: "fst (acquire now p s) = Pending"
  shows "fst (awaitAcquire now p [Reset later] s) = Refused ''Rate limiter was reset''
         \<and> queue (snd (awaitAcquire now p [Reset later] s)) = []
         \<and> tokens (snd (awaitAcquire now p [Reset later] s)) = maxRequests s"
proof -
  from pend obtain s1 where s1: "acquire now p s = (Pending, s1)"
    by (cases "acquire now p s") simp
  from pend have q: "queue s1 = queue (refill now s) @ [p]"
    and mr: "maxRequests s1 = maxRequests s"
    using s1 refill_fields [of now s]
    by (auto simp: acquire_def Let_def startRefillTimer_def split: if_splits)
  have "map_of (map (\<lambda>r. (r, Rejected ''Rate limiter was reset'')) (queue s1)) p
          = Some (Rejected ''Rate limiter was reset'')"
    by (rule map_of_const) (simp add: q)
  then show ?thesis
    using s1 mr by (simp add: awaitAcquire_def run_limiter_ops_def reset_eq Let_def)
qed

section \<open>Claims about the rate limiter\<close>

text \<open>
  C7. The refill step, for an interval \<open>I > 0\<close>. When \<open>elapsed \<ge> I\<close> it takes
  \<open>intervals = \<lfloor>elapsed / I\<rfloor>\<close> (at least 1), sets the tokens to
  \<open>min C (t + intervals * C)\<close> and the anchor to the old anchor plus \<open>intervals * I\<close>, and
  then serves the queue from these tokens: what is left of \<open>elapsed\<close> after the new anchor
  is \<open>elapsed mod I\<close>, and with an empty queue the tokens stay at the minimum. When
  \<open>elapsed < I\<close> nothing changes.
\<close>

theorem refill_rule:
  assumes "0 < interval s"
  shows
    "(interval s \<le> now - lastRefill s \<longrightarrow>
        (let intervals = (now - lastRefill s) div interval s;
             t' = min (maxRequests s) (tokens s + intervals * maxRequests s)
         in 1 \<le> intervals
            \<and> refill now s =
                processQueue (s\<lparr>tokens := t', lastRefill := lastRefill s + intervals * interval s\<rparr>)
            \<and> lastRefill (refill now s) = lastRefill s + intervals * interval s
            \<and> now - lastRefill (refill now s) = (now - lastRefill s) mod interval s
            \<and> tokens (refill now s) = t' - int (min (length (queue s)) (nat t'))
            \<and> (queue s = [] \<longrightarrow> tokens (refill now s) = t')))
     \<and> (now - lastRefill s < interval s \<longrightarrow> refill now s = s)"
proof (intro conjI impI)
  assume fire: "interval s \<le> now - lastRefill s"
  let ?n = "(now - lastRefill s) div interval s"
  let ?t = "min (maxRequests s) (tokens s + ?n * maxRequests s)"
  let ?s1 = "s\<lparr>tokens := ?t, lastRefill := lastRefill s + ?n * interval s\<rparr>"
  have r: "refill now s = processQueue ?s1"
    using assms fire by (rule refill_fires)
  have n1: "1 \<le> ?n"
    using assms fire by (simp add: pos_imp_zdiv_pos_iff Suc_le_eq int_one_le_iff_zero_less)
  have lr: "lastRefill (refill now s) = lastRefill s + ?n * interval s"
    using processQueue_fields [of ?s1] by (simp add: r)
  have md: "now - lastRefill (refill now s) = (now - lastRefill s) mod interval s"
    using div_mult_mod_eq [of "now - lastRefill s" "interval s"] unfolding lr by linarith
  have tk: "tokens (refill now s) = ?t - int (min (length (queue s)) (nat ?t))"
    using processQueue_drain [of ?s1] by (simp add: r)
  show "let intervals = ?n; t' = min (maxRequests s) (tokens s + intervals * maxRequests s)
        in 1 \<le> intervals
            \<and> refill now s =
                processQueue (s\<lparr>tokens := t', lastRefill := lastRefill s + intervals * interval s\<rparr>)
            \<and> lastRefill (refill now s) = lastRefill s + intervals * interval s
            \<and> now - lastRefill (refill now s) = (now - lastRefill s) mod interval s
            \<and> tokens (refill now s) = t' - int (min (length (queue s)) (nat t'))
            \<and> (queue s = [] \<longrightarrow> tokens (refill now s) = t')"
    unfolding Let_def using r n1 lr md tk by simp
next
  assume "now - lastRefill s < interval s"
  then show "refill now s = s" by (rule refill_idle)
qed

theorem refill_rule_witness:
  "0 < interval \<lparr>maxRequests = 3, interval = 100, shouldQueue = True, maxQueueSize = 100,
       tokens = 0, lastRefill = 0, queue = [1::nat], refillTimer = True, settled = []\<rparr>
   \<and> refill 250 \<lparr>maxRequests = 3, interval = 100, shouldQueue = True, maxQueueSize = 100,
       tokens = 0, lastRefill = 0, queue = [1::nat], refillTimer = True, settled = []\<rparr>
     = \<lparr>maxRequests = 3, interval = 100, shouldQueue = True, maxQueueSize = 100,
       tokens = 2, lastRefill = 200, queue = [], refillTimer = False, settled = [(1, Resolved)]\<rparr>
   \<and> refill 50 \<lparr>maxRequests = 3, interval = 100, shouldQueue = True, maxQueueSize = 100,
       tokens = 0, lastRefill = 0, queue = [1::nat], refillTimer = True, settled = []\<rparr>
     = \<lparr>maxRequests = 3, interval = 100, shouldQueue = True, maxQueueSize = 100,
       tokens = 0, lastRefill = 0, queue = [1::nat], refillTimer = True, settled = []\<rparr>"
  using
    refill_rule [of "\<lparr>maxRequests = 3, interval = 100, shouldQueue = True, maxQueueSize = 100,
       tokens = 0, lastRefill = 0, queue = [1::nat], refillTimer = True, settled = []\<rparr>" 250]
    refill_rule [of "\<lparr>maxRequests = 3, interval = 100, shouldQueue = True, maxQueueSize = 100,
       tokens = 0, lastRefill = 0, queue = [1::nat], refillTimer = True, settled = []\<rparr>" 50]
  by (simp add: processQueue_def processQueue_while.simps stopRefillTimer_def)

text \<open>
  C8, as amended, for an interval \<open>I > 0\<close>. \<^verbatim>\<open>acquire\<close> fails at the call exactly when,
  after its refill, no token is there and either queuing is off (message
  \<^verbatim>\<open>Rate limit exceeded\<close>) or the queue has reached \<^verbatim>\<open>maxQueueSize\<close> (message
  \<^verbatim>\<open>Rate limit queue is full\<close>). The call that fails so leaves the limiter as its refill
  left it: no token is taken, nothing is queued; in a state that the operations can reach
  (\<open>limiter_ok\<close>) the refill changes nothing either, and the limiter is exactly as it was
  before the call. Every other failure of an \<^verbatim>\<open>acquire\<close> is that of a queued call, rejected
  later with \<^verbatim>\<open>Rate limiter was reset\<close>; a \<^verbatim>\<open>reset\<close> that follows a queued call does
  reject it, and empties the queue and refills the tokens as it does so.
\<close>

theorem acquire_failure:
  assumes "0 < interval s"
  shows "(fst (acquire now p s) = Failed msg \<longleftrightarrow>
      \<not> tokens (refill now s) > 0 \<and>
      (if \<not> shouldQueue s then msg = ''Rate limit exceeded''
       else int (length (queue (refill now s))) \<ge> maxQueueSize s
            \<and> msg = ''Rate limit queue is full''))
   \<and> (fst (acquire now p s) = Failed msg \<longrightarrow> snd (acquire now p s) = refill now s)
   \<and> (fst (acquire now p s) = Failed msg \<and> limiter_ok s \<longrightarrow> snd (acquire now p s) = s)
   \<and> (fst (awaitAcquire now p evs s) = Refused msg \<longrightarrow>
         fst (acquire now p s) = Failed msg
         \<or> (fst (acquire now p s) = Pending \<and> msg = ''Rate limiter was reset''))
   \<and> (fst (acquire now p s) = Pending \<longrightarrow>
         fst (awaitAcquire now p [Reset later] s) = Refused ''Rate limiter was reset''
         \<and> queue (snd (awaitAcquire now p [Reset later] s)) = []
         \<and> tokens (snd (awaitAcquire now p [Reset later] s)) = maxRequests s)"
  using acquire_failure_immediate [of now p s msg] awaitAcquire_refused [of now p evs s msg]
    awaitAcquire_reset [of now p s later]
  by blast

theorem acquire_failure_witness:
  "fst (acquire 50 (2::nat)
          \<lparr>maxRequests = 1, interval = 100, shouldQueue = True, maxQueueSize = 1,
           tokens = 0, lastRefill = 0, queue = [1::nat], refillTimer = True, settled = []\<rparr>)
     = Failed ''Rate limit queue is full''
   \<and> snd (acquire 50 (2::nat)
          \<lparr>maxRequests = 1, interval = 100, shouldQueue = True, maxQueueSize = 1,
           tokens = 0, lastRefill = 0, queue = [1::nat], refillTimer = True, settled = []\<rparr>)
     = \<lparr>maxRequests = 1, interval = 100, shouldQueue = True, maxQueueSize = 1,
           tokens = 0, lastRefill = 0, queue = [1::nat], refillTimer = True, settled = []\<rparr>
   \<and> fst (acquire 50 (2::nat)
          \<lparr>maxRequests = 3, interval = 100, shouldQueue = False, maxQueueSize = 100,
           tokens = 0, lastRefill = 0, queue = []::nat list, refillTimer = False, settled = []\<rparr>)
     = Failed ''Rate limit exceeded''
   \<and> snd (acquire 50 (2::nat)
          \<lparr>maxRequests = 3, interval = 100, shouldQueue = False, maxQueueSize = 100,
           tokens = 0, lastRefill = 0, queue = []::nat list, refillTimer = False, settled = []\<rparr>)
     = \<lparr>maxRequests = 3, interval = 100, shouldQueue = False, maxQueueSize = 100,
           tokens = 0, lastRefill = 0, queue = []::nat list, refillTimer = False, settled = []\<rparr>
   \<and> fst (acquire 50 (7::nat)
          \<lparr>maxRequests = 1, interval = 100, shouldQueue = True, maxQueueSize = 5,
           tokens = 0, lastRefill = 0, queue = []::nat list, refillTimer = False, settled = []\<rparr>) = Pending
   \<and> fst (awaitAcquire 50 (7::nat) [Reset 60]
          \<lparr>maxRequests = 1, interval = 100, shouldQueue = True, maxQueueSize = 5,
           tokens = 0, lastRefill = 0, queue = []::nat list, refillTimer = False, settled = []\<rparr>) = Refused ''Rate limiter was reset''
   \<and> tokens (snd (awaitAcquire 50 (7::nat) [Reset 60]
          \<lparr>maxRequests = 1, interval = 100, shouldQueue = True, maxQueueSize = 5,
           tokens = 0, lastRefill = 0, queue = []::nat list, refillTimer = False, settled = []\<rparr>)) = 1"
proof -
  have h1: "0 < interval \<lparr>maxRequests = 1, interval = 100, shouldQueue = True, maxQueueSize = 1,
           tokens = 0, lastRefill = 0, queue = [1::nat], refillTimer = True, settled = []\<rparr>"
    and h2: "0 < interval \<lparr>maxRequests = 3, interval = 100, shouldQueue = False, maxQueueSize = 100,
           tokens = 0, lastRefill = 0, queue = []::nat list, refillTimer = False, settled = []\<rparr>"
    and h3: "0 < interval \<lparr>maxRequests = 1, interval = 100, shouldQueue = True, maxQueueSize = 5,
           tokens = 0, lastRefill = 0, queue = []::nat list, refillTimer = False, settled = []\<rparr>"
    by simp_all
  have ok: "limiter_ok \<lparr>maxRequests = 1, interval = 100, shouldQueue = True, maxQueueSize = 1,
           tokens = 0, lastRefill = 0, queue = [1::nat], refillTimer = True, settled = []\<rparr>"
    "limiter_ok \<lparr>maxRequests = 3, interval = 100, shouldQueue = False, maxQueueSize = 100,
           tokens = 0, lastRefill = 0, queue = []::nat list, refillTimer = False, settled = []\<rparr>"
    by (simp_all add: limiter_ok_def)
  have pend: "fst (acquire 50 (7::nat)
          \<lparr>maxRequests = 1, interval = 100, shouldQueue = True, maxQueueSize = 5,
           tokens = 0, lastRefill = 0, queue = []::nat list, refillTimer = False, settled = []\<rparr>) = Pending"
    by (simp add: acquire_def refill_def)
  show ?thesis
    using ok pend
      acquire_failure [OF h1, of 50 "2::nat" "''Rate limit queue is full''"]
      acquire_failure [OF h2, of 50 "2::nat" "''Rate limit exceeded''"]
      acquire_failure [OF h3, of 50 "7::nat" "''Rate limiter was reset''" "[Reset 60]" 60]
    by (simp add: refill_def)
qed

text \<open>
  C8, as stated, fails for a queued call: with queuing on and the queue not full,
  \<^verbatim>\<open>acquire\<close> is queued, and a later \<^verbatim>\<open>reset()\<close> rejects it with a \<^verbatim>\<open>RateLimitError\<close>. The
  failure is not immediate, and the tokens (0 before, 1 after) and the queue are changed.
\<close>

theorem queued_acquire_rejected_by_reset:
  "awaitAcquire 50 (7::nat) [Reset 60]
      \<lparr>maxRequests = 1, interval = 100, shouldQueue = True, maxQueueSize = 5,
       tokens = 0, lastRefill = 0, queue = [], refillTimer = False, settled = []\<rparr>
     = (Refused ''Rate limiter was reset'',
        \<lparr>maxRequests = 1, interval = 100, shouldQueue = True, maxQueueSize = 5,
         tokens = 1, lastRefill = 60, queue = [], refillTimer = False,
         settled = [(7, Rejected ''Rate limiter was reset'')]\<rparr>)
   \<and> fst (acquire 50 (7::nat)
      \<lparr>maxRequests = 1, interval = 100, shouldQueue = True, maxQueueSize = 5,
       tokens = 0, lastRefill = 0, queue = [], refillTimer = False, settled = []\<rparr>) = Pending
   \<and> shouldQueue (refill 50
      \<lparr>maxRequests = 1, interval = 100, shouldQueue = True, maxQueueSize = 5,
       tokens = 0, lastRefill = 0, queue = []::nat list, refillTimer = False, settled = []\<rparr>)
   \<and> int (length (queue (refill 50
      \<lparr>maxRequests = 1, interval = 100, shouldQueue = True, maxQueueSize = 5,
       tokens = 0, lastRefill = 0, queue = []::nat list, refillTimer = False, settled = []\<rparr>))) < 5"
  by (simp add: awaitAcquire_def acquire_def refill_def run_limiter_ops_def reset_eq
        startRefillTimer_def)

text \<open>
  C9. \<^verbatim>\<open>reset()\<close> sets the tokens to \<^verbatim>\<open>maxRequests\<close> and the anchor to now, clears the
  timer, and rejects every queued request with \<^verbatim>\<open>Rate limiter was reset\<close>, first in first
  out: one rejection per queued request, and the queue is empty afterwards.
\<close>

theorem reset_rejects_all_queued:
  "reset now s =
     s\<lparr>tokens := maxRequests s, lastRefill := now, queue := [], refillTimer := False,
       settled := settled s @ map (\<lambda>r. (r, Rejected ''Rate limiter was reset'')) (queue s)\<rparr>
   \<and> tokens (reset now s) = maxRequests s
   \<and> lastRefill (reset now s) = now
   \<and> queue (reset now s) = []
   \<and> getQueueSize (reset now s) = 0
   \<and> length (settled (reset now s)) = length (settled s) + length (queue s)"
  by (simp add: reset_eq getQueueSize_def)

section \<open>Properties of the coordinator\<close>

lemma request_hit:
  assumes "gcache g = Some c" and "fst (Cache_get now_get k c) = Some v"
  shows "requestWithCacheAndRateLimit now_get now_acq now_set p evs k produced g
           = Some (Returned v, g\<lparr>gcache := Some (snd (Cache_get now_get k c))\<rparr>)"
  using assms by (cases "Cache_get now_get k c") (simp add: requestWithCacheAndRateLimit_def)

lemma afterAcquire_requests:
  "afterAcquire now k produced g = Some (out, g') \<Longrightarrow>
   requests g' = requests g + 1 \<and> rateLimiter g' = rateLimiter g"
  by (auto simp: afterAcquire_def Let_def split: sum.splits option.splits if_splits)

lemma afterAcquire_caches:
  assumes "afterAcquire now k (Inr rs) g = Some (out, g')"
      and "gcache g = Some c" and "1 \<le> maxSize c" and "rs \<noteq> []"
  shows "\<exists>c'. gcache g' = Some c' \<and> maxSize c' = maxSize c \<and> ttl c' = ttl c
          \<and> map_of (cache c') k = Some \<lparr>entryValue = Some rs, expiresAt = now + ttl c\<rparr>"
proof -
  from Cache_set_stores [OF assms(3), of now k "Some rs" None] obtain c' where
    c': "Cache_set now k (Some rs) None c = Some c'" "maxSize c' = maxSize c" "ttl c' = ttl c"
        "map_of (cache c') k = Some \<lparr>entryValue = Some rs, expiresAt = now + ttl c\<rparr>"
    by auto
  with assms(1,2,4) show ?thesis
    by (auto simp: afterAcquire_def Let_def)
qed

lemma afterAcquire_maxSize:
  assumes "afterAcquire now k (Inr rs) g = Some (out, g')"
      and "gcache g = Some c" and "rs \<noteq> []"
  shows "1 \<le> maxSize c"
proof -
  from assms obtain m where "evict_while (maxSize c) (cache c) = Some m"
    by (auto simp: afterAcquire_def Let_def Cache_set_def split: option.splits)
  from evict_while_returns_pos [OF this] show ?thesis by simp
qed

lemma request_miss_cases:
  assumes "requestWithCacheAndRateLimit now_get now_acq now_set p evs k produced g
             = Some (out, g')"
      and "requests g' \<noteq> requests g"
  shows "\<exists>g0. afterAcquire now_set k produced g0 = Some (out, g')
           \<and> requests g0 = requests g
           \<and> gcache g0 = map_option (\<lambda>c. snd (Cache_get now_get k c)) (gcache g)"
  using assms
  by (auto simp: requestWithCacheAndRateLimit_def
           split: option.splits prod.splits awaited.splits)

lemma afterAcquire_total:
  assumes "case gcache g of None \<Rightarrow> True | Some c \<Rightarrow> 1 \<le> maxSize c"
  shows "\<exists>out g'. afterAcquire now k produced g = Some (out, g')"
proof (cases "gcache g")
  case None
  then show ?thesis by (simp add: afterAcquire_def Let_def split: sum.splits)
next
  case (Some c)
  with assms have "1 \<le> maxSize c" by simp
  from Cache_set_stores [OF this] obtain c' where
    "Cache_set now k (Some (projr produced)) None c = Some c'" by blast
  with Some show ?thesis
    by (cases produced) (simp_all add: afterAcquire_def Let_def)
qed

lemma gcache_update_same: "gcache g = Some c \<Longrightarrow> g\<lparr>gcache := Some c\<rparr> = g"
  by (cases g) simp

lemma request_miss_invokes:
  assumes "gcache g = Some c" and "1 \<le> maxSize c" and "map_of (cache c) k = None"
  shows "\<exists>out g'. requestWithCacheAndRateLimit now_get now_acq now_set p evs k produced g
                    = Some (out, g')
           \<and> requests g' = requests g +
                (if (case rateLimiter g of None \<Rightarrow> True
                     | Some l \<Rightarrow> fst (awaitAcquire now_acq p evs l) = Admitted)
                 then 1 else 0)"
proof (cases "rateLimiter g")
  case None
  have "case gcache g of None \<Rightarrow> True | Some c \<Rightarrow> 1 \<le> maxSize c"
    using assms(1,2) by simp
  from afterAcquire_total [OF this, of now_set k produced] obtain out g' where
    a: "afterAcquire now_set k produced g = Some (out, g')" by blast
  have "requestWithCacheAndRateLimit now_get now_acq now_set p evs k produced g = Some (out, g')"
    using assms(1,3) None a
    by (simp add: requestWithCacheAndRateLimit_def Cache_get_miss gcache_update_same)
  with afterAcquire_requests [OF a] None show ?thesis by simp
next
  case (Some l)
  obtain a l' where l': "awaitAcquire now_acq p evs l = (a, l')"
    by (cases "awaitAcquire now_acq p evs l")
  show ?thesis
  proof (cases a)
    case Admitted
    let ?g = "g\<lparr>rateLimiter := Some l'\<rparr>"
    have "case gcache ?g of None \<Rightarrow> True | Some c \<Rightarrow> 1 \<le> maxSize c"
      using assms(1,2) by simp
    from afterAcquire_total [OF this, of now_set k produced] obtain out g' where
      a: "afterAcquire now_set k produced ?g = Some (out, g')" by blast
    have "requestWithCacheAndRateLimit now_get now_acq now_set p evs k produced g
            = Some (out, g')"
      using assms(1,3) Some l' Admitted a
      by (simp add: requestWithCacheAndRateLimit_def Cache_get_miss gcache_update_same)
    with afterAcquire_requests [OF a] Some l' Admitted show ?thesis by simp
  next
    case (Refused msg)
    with assms(1,3) Some l' show ?thesis
      by (simp add: requestWithCacheAndRateLimit_def Cache_get_miss gcache_update_same)
  next
    case Parked
    with assms(1,3) Some l' show ?thesis
      by (simp add: requestWithCacheAndRateLimit_def Cache_get_miss gcache_update_same)
  qed
qed

section \<open>Claims about the coordinator\<close>

text \<open>
  C1, as amended. Caching is on, one call runs at a time, and the limiter, if there is
  one, has an interval \<open>I > 0\<close>. If a call invokes the producer, admitted at once or after
  waiting in the queue, and the producer returns a result that is not empty, then a second
  call with the same key, at a clock reading not past the expiry of the stored entry,
  returns that result, leaves the rate limiter as it was and does not invoke the
  producer: the producer has run once. A call with a key that is not cached invokes the
  producer again when it is admitted, at once or from the queue, and does not invoke it
  when the limiter refuses it or still holds it.
\<close>

theorem cached_result_served_without_producer:
  assumes "gcache g = Some c"
      and "case rateLimiter g of None \<Rightarrow> True | Some l \<Rightarrow> 0 < interval l"
      and "requestWithCacheAndRateLimit t1 t1a t1s p1 evs1 k (Inr rs) g = Some (out1, g1)"
      and "requests g1 = requests g + 1"
      and "rs \<noteq> []"
      and "\<not> t2 > t1s + ttl c"
  shows "out1 = Returned rs
     \<and> (\<exists>g2 c2. requestWithCacheAndRateLimit t2 t2a t2s p2 evs2 k produced2 g1
                   = Some (Returned rs, g2)
          \<and> requests g2 = requests g + 1
          \<and> rateLimiter g2 = rateLimiter g1
          \<and> gcache g2 = Some c2
          \<and> (map_of (cache c2) k' = None \<longrightarrow>
               (\<exists>out3 g3. requestWithCacheAndRateLimit t3 t3a t3s p3 evs3 k' produced3 g2
                             = Some (out3, g3)
                  \<and> requests g3 = requests g +
                       (if (case rateLimiter g2 of None \<Rightarrow> True
                            | Some l \<Rightarrow> fst (awaitAcquire t3a p3 evs3 l) = Admitted)
                        then 2 else 1))))"
proof -
  from request_miss_cases [OF assms(3)] assms(4) obtain g0 where
    g0: "afterAcquire t1s k (Inr rs) g0 = Some (out1, g1)"
        "gcache g0 = map_option (\<lambda>c. snd (Cache_get t1 k c)) (gcache g)"
    by auto
  let ?c0 = "snd (Cache_get t1 k c)"
  have c0: "gcache g0 = Some ?c0" and t0: "ttl ?c0 = ttl c"
    using g0(2) assms(1) by (simp_all add: Cache_get_fields)
  have m0: "1 \<le> maxSize ?c0"
    using g0(1) c0 assms(5) by (rule afterAcquire_maxSize)
  then have mc: "1 \<le> maxSize c" by (simp add: Cache_get_fields)
  from afterAcquire_caches [OF g0(1) c0 m0 assms(5)] t0 obtain c1 where
    c1: "gcache g1 = Some c1" "maxSize c1 = maxSize c"
        "map_of (cache c1) k = Some \<lparr>entryValue = Some rs, expiresAt = t1s + ttl c\<rparr>"
    using Cache_get_fields [of t1 k c] by auto
  have out: "out1 = Returned rs"
    using g0(1) by (auto simp: afterAcquire_def Let_def split: option.splits if_splits)
  have hit: "fst (Cache_get t2 k c1) = Some rs"
    using Cache_get_hit [OF c1(3)] assms(6) by simp
  let ?c2 = "snd (Cache_get t2 k c1)"
  let ?g2 = "g1\<lparr>gcache := Some ?c2\<rparr>"
  have second: "requestWithCacheAndRateLimit t2 t2a t2s p2 evs2 k produced2 g1
                  = Some (Returned rs, ?g2)"
    using c1(1) hit by (rule request_hit)
  have m2: "1 \<le> maxSize ?c2"
    using c1(2) mc by (simp add: Cache_get_fields)
  have third: "\<exists>out3 g3. requestWithCacheAndRateLimit t3 t3a t3s p3 evs3 k' produced3 ?g2
                             = Some (out3, g3)
                  \<and> requests g3 = requests g +
                       (if (case rateLimiter ?g2 of None \<Rightarrow> True
                            | Some l \<Rightarrow> fst (awaitAcquire t3a p3 evs3 l) = Admitted)
                        then 2 else 1)"
    if "map_of (cache ?c2) k' = None"
    using request_miss_invokes [of ?g2 ?c2 k' t3 t3a t3s p3 evs3 produced3] that m2 assms(4)
    by auto
  show ?thesis
    using out second third assms(4) by (intro conjI exI [of _ ?g2] exI [of _ ?c2]) auto
qed

theorem cached_result_served_without_producer_witness:
  "fst (acquire 1 (0::nat)
      \<lparr>maxRequests = 5, interval = 1000, shouldQueue = True, maxQueueSize = 100,
                  tokens = 0, lastRefill = 0, queue = []::nat list, refillTimer = False, settled = []\<rparr>) = Pending
   \<and> requestWithCacheAndRateLimit 0 1 1002 (0::nat) [Tick 1000] ''test address'' (Inr [7::nat])
      \<lparr>gcache = Some \<lparr>cache = [], ttl = 10000, maxSize = 1000\<rparr>,
        rateLimiter = Some \<lparr>maxRequests = 5, interval = 1000, shouldQueue = True, maxQueueSize = 100,
                  tokens = 0, lastRefill = 0, queue = []::nat list, refillTimer = False, settled = []\<rparr>,
        requests = 0\<rparr>
     = Some (Returned [7],
      \<lparr>gcache = Some \<lparr>cache = [(''test address'', \<lparr>entryValue = Some [7::nat], expiresAt = 11002\<rparr>)], ttl = 10000, maxSize = 1000\<rparr>,
        rateLimiter = Some \<lparr>maxRequests = 5, interval = 1000, shouldQueue = True, maxQueueSize = 100,
                  tokens = 4, lastRefill = 1000, queue = []::nat list, refillTimer = False, settled = [(0, Resolved)]\<rparr>,
        requests = 1\<rparr>)
   \<and> \<not> (3000::int) > 1002 + 10000
   \<and> requestWithCacheAndRateLimit 3000 3001 3002 (1::nat) [] ''test address'' (Inr [9])
      \<lparr>gcache = Some \<lparr>cache = [(''test address'', \<lparr>entryValue = Some [7::nat], expiresAt = 11002\<rparr>)], ttl = 10000, maxSize = 1000\<rparr>,
        rateLimiter = Some \<lparr>maxRequests = 5, interval = 1000, shouldQueue = True, maxQueueSize = 100,
                  tokens = 4, lastRefill = 1000, queue = []::nat list, refillTimer = False, settled = [(0, Resolved)]\<rparr>,
        requests = 1\<rparr>
     = Some (Returned [7],
      \<lparr>gcache = Some \<lparr>cache = [(''test address'', \<lparr>entryValue = Some [7::nat], expiresAt = 11002\<rparr>)], ttl = 10000, maxSize = 1000\<rparr>,
        rateLimiter = Some \<lparr>maxRequests = 5, interval = 1000, shouldQueue = True, maxQueueSize = 100,
                  tokens = 4, lastRefill = 1000, queue = []::nat list, refillTimer = False, settled = [(0, Resolved)]\<rparr>,
        requests = 1\<rparr>)
   \<and> requestWithCacheAndRateLimit 3030 3031 3032 (1::nat) [] ''different address'' (Inr [8])
      \<lparr>gcache = Some \<lparr>cache = [(''test address'', \<lparr>entryValue = Some [7::nat], expiresAt = 11002\<rparr>)], ttl = 10000, maxSize = 1000\<rparr>,
        rateLimiter = Some \<lparr>maxRequests = 5, interval = 1000, shouldQueue = True, maxQueueSize = 100,
                  tokens = 4, lastRefill = 1000, queue = []::nat list, refillTimer = False, settled = [(0, Resolved)]\<rparr>,
        requests = 1\<rparr>
     = Some (Returned [8],
      \<lparr>gcache = Some \<lparr>cache = [(''test address'', \<lparr>entryValue = Some [7::nat], expiresAt = 11002\<rparr>),
          (''different address'', \<lparr>entryValue = Some [8], expiresAt = 13032\<rparr>)], ttl = 10000, maxSize = 1000\<rparr>,
        rateLimiter = Some \<lparr>maxRequests = 5, interval = 1000, shouldQueue = True, maxQueueSize = 100,
                  tokens = 4, lastRefill = 3000, queue = []::nat list, refillTimer = False, settled = [(0, Resolved)]\<rparr>,
        requests = 2\<rparr>)"
proof -
  let ?l0 = "\<lparr>maxRequests = 5, interval = 1000, shouldQueue = True, maxQueueSize = 100,
                  tokens = 0, lastRefill = 0, queue = []::nat list, refillTimer = False, settled = []\<rparr>"
  let ?l1 = "\<lparr>maxRequests = 5, interval = 1000, shouldQueue = True, maxQueueSize = 100,
                  tokens = 4, lastRefill = 1000, queue = []::nat list, refillTimer = False, settled = [(0, Resolved)]\<rparr>"
  let ?c0 = "\<lparr>cache = [], ttl = 10000, maxSize = 1000\<rparr> :: (string, nat list option) Cache"
  let ?c1 = "\<lparr>cache = [(''test address'', \<lparr>entryValue = Some [7::nat], expiresAt = 11002\<rparr>)], ttl = 10000, maxSize = 1000\<rparr> :: (string, nat list option) Cache"
  let ?g0 = "\<lparr>gcache = Some ?c0, rateLimiter = Some ?l0, requests = 0\<rparr>"
  let ?g1 = "\<lparr>gcache = Some ?c1, rateLimiter = Some ?l1, requests = 1\<rparr>"
  have pend: "fst (acquire 1 (0::nat) ?l0) = Pending"
    by (simp add: acquire_def refill_def)
  have first: "requestWithCacheAndRateLimit 0 1 1002 (0::nat) [Tick 1000] ''test address''
                 (Inr [7::nat]) ?g0 = Some (Returned [7], ?g1)"
    by (simp add: requestWithCacheAndRateLimit_def afterAcquire_def Cache_get_def Cache_set_def
          awaitAcquire_def run_limiter_ops_def acquire_def refill_def js_rem_def
          startRefillTimer_def stopRefillTimer_def processQueue_def processQueue_while.simps
          evict_while_below)
  have a1: "gcache ?g0 = Some ?c0" by simp
  have a2: "case rateLimiter ?g0 of None \<Rightarrow> True | Some l \<Rightarrow> 0 < interval l" by simp
  have a4: "requests ?g1 = requests ?g0 + 1"
    and a5: "[7::nat] \<noteq> []" and a6: "\<not> (3000::int) > 1002 + ttl ?c0"
    by simp_all
  from cached_result_served_without_producer
         [OF a1 a2 first a4 a5 a6, of 3001 3002 1 "[]" "Inr [9]" "''different address''"
            3030 3031 3032 1 "[]" "Inr [8]"]
  obtain g2 c2 where
    second: "requestWithCacheAndRateLimit 3000 3001 3002 (1::nat) [] ''test address'' (Inr [9]) ?g1
               = Some (Returned [7], g2)"
    by blast
  have "requestWithCacheAndRateLimit 3000 3001 3002 (1::nat) [] ''test address'' (Inr [9]) ?g1
          = Some (Returned [7], ?g1)"
    by (simp add: requestWithCacheAndRateLimit_def Cache_get_def map_delete_def)
  with second have g2: "g2 = ?g1" by simp
  have "requestWithCacheAndRateLimit 3030 3031 3032 (1::nat) [] ''different address'' (Inr [8])
          ?g1
     = Some (Returned [8],
      \<lparr>gcache = Some \<lparr>cache = [(''test address'', \<lparr>entryValue = Some [7::nat], expiresAt = 11002\<rparr>),
          (''different address'', \<lparr>entryValue = Some [8], expiresAt = 13032\<rparr>)], ttl = 10000, maxSize = 1000\<rparr>,
        rateLimiter = Some \<lparr>maxRequests = 5, interval = 1000, shouldQueue = True, maxQueueSize = 100,
                  tokens = 4, lastRefill = 3000, queue = []::nat list, refillTimer = False, settled = [(0, Resolved)]\<rparr>,
        requests = 2\<rparr>)"
    by (simp add: requestWithCacheAndRateLimit_def afterAcquire_def Cache_get_def Cache_set_def
          awaitAcquire_def acquire_def refill_def js_rem_def
          stopRefillTimer_def processQueue_def processQueue_while.simps evict_while_below)
  with pend first second g2 show ?thesis by simp
qed

text \<open>
  C1, as stated, fails when the producer returns an empty result: the guard
  \<^verbatim>\<open>results.length > 0\<close> keeps it out of the cache, and the second call with the same key,
  well within the TTL, invokes the producer a second time.
\<close>

theorem empty_result_not_cached:
  "requestWithCacheAndRateLimit 0 0 0 (0::nat) [] ''k'' (Inr ([]::nat list))
      \<lparr>gcache = Some (new_Cache (Some 10000) None), rateLimiter = None, requests = 0\<rparr>
     = Some (Returned [],
        \<lparr>gcache = Some (new_Cache (Some 10000) None), rateLimiter = None, requests = 1\<rparr>)
   \<and> requestWithCacheAndRateLimit 1 1 1 (0::nat) [] ''k'' (Inr ([]::nat list))
      \<lparr>gcache = Some (new_Cache (Some 10000) None), rateLimiter = None, requests = 1\<rparr>
     = Some (Returned [],
        \<lparr>gcache = Some (new_Cache (Some 10000) None), rateLimiter = None, requests = 2\<rparr>)"
  by (simp add: requestWithCacheAndRateLimit_def afterAcquire_def new_Cache_def Cache_get_def)

end
